theory Spec2Isabelle
  imports Main
begin

section \<open>Strings, numbers and formatting\<close>

text \<open>
  Go strings are byte sequences; they are modelled as \<open>string\<close> (a list of 8-bit
  characters). The constants below name the bytes that cannot be written inside a
  string literal here.
\<close>

definition dquote :: char where "dquote = CHR 0x22"
definition bslash :: char where "bslash = CHR 0x5C"
definition newline :: char where "newline = CHR 0x0A"

text \<open>The level constants of the package.\<close>

definition INFO :: string where "INFO = ''INFO''"
definition WARN :: string where "WARN = ''WARN''"
definition FATAL :: string where "FATAL = ''FATAL''"
definition PANIC :: string where "PANIC = ''PANIC''"

text \<open>\<open>strings.Join(elems, sep)\<close>.\<close>

fun Join :: "string list \<Rightarrow> string \<Rightarrow> string" where
  "Join [] sep = []"
| "Join [x] sep = x"
| "Join (x # y # ys) sep = x @ sep @ Join (y # ys) sep"

text \<open>The verb \<open>%d\<close> of \<open>fmt.Sprintf\<close> on an \<open>int64\<close>: decimal digits, with a minus sign.\<close>

fun digits :: "nat \<Rightarrow> string" where
  "digits n = (if n < 10 then [char_of (48 + n)]
               else digits (n div 10) @ [char_of (48 + n mod 10)])"

declare digits.simps [simp del]

definition itoa :: "int \<Rightarrow> string" where
  "itoa i = (if i < 0 then CHR ''-'' # digits (nat (- i)) else digits (nat i))"

section \<open>Time\<close>

text \<open>
  A \<open>time.Time\<close> is an instant, counted in nanoseconds from the zero time (January 1,
  year 1, 00:00:00 UTC); \<open>IsZero\<close> recognises that instant. \<open>t.Sub(u)\<close> is a
  \<open>time.Duration\<close>, a signed 64-bit count of nanoseconds: the library returns the
  largest or smallest duration when the difference does not fit. \<open>d.Milliseconds()\<close>
  is the integer quotient by \<open>1e6\<close>, which Go truncates towards zero.
\<close>

type_synonym time = int

definition IsZero :: "time \<Rightarrow> bool" where
  "IsZero t \<longleftrightarrow> t = 0"

definition maxDuration :: int where "maxDuration = 2 ^ 63 - 1"
definition minDuration :: int where "minDuration = - (2 ^ 63)"

definition Sub :: "time \<Rightarrow> time \<Rightarrow> int" where
  "Sub t u = (if t - u > maxDuration then maxDuration
              else if t - u < minDuration then minDuration
              else t - u)"

definition Milliseconds :: "int \<Rightarrow> int" where
  "Milliseconds d = (if d < 0 then - ((- d) div 1000000) else d div 1000000)"

text \<open>
  \<open>logMessage\<close> reads the clock up to three times: \<open>startingTime\<close>,
  \<open>currentTime\<close> (only when a start time is given) and \<open>closingTime\<close>. The three
  readings are inputs of the model, together with the rendering of an instant under the
  layout \<open>2006-01-02 15:04:05\<close> in the local time zone.
\<close>

record clock =
  startingTime :: time
  currentTime :: time
  closingTime :: time
  Format :: "time \<Rightarrow> string"

section \<open>The file-log setting\<close>

text \<open>
  \<open>FileLog\<close> has type \<open>any\<close>. The code distinguishes the nil interface, a \<open>bool\<close>, a
  \<open>string\<close>, and every other dynamic type, of which only the name printed by \<open>%T\<close>
  is used.
\<close>

datatype any = Nil | Bool bool | String string | Other string

text \<open>What \<open>%T\<close> prints for the value.\<close>

fun typeName :: "any \<Rightarrow> string" where
  "typeName Nil = ''<nil>''"
| "typeName (Bool b) = ''bool''"
| "typeName (String s) = ''string''"
| "typeName (Other t) = t"

text \<open>
  \<open>checkSaveLogOption\<close> returns \<open>(shouldSave, path, err)\<close>; an \<open>error\<close> is modelled by
  its message, \<open>None\<close> being \<open>nil\<close>.
\<close>

fun checkSaveLogOption :: "any \<Rightarrow> bool \<times> string \<times> string option" where
  "checkSaveLogOption (Bool v) = (v, ''./log.json'', None)"
| "checkSaveLogOption (String v) =
     (if v \<noteq> [] then (True, v, None) else (False, ''./log.json'', None))"
| "checkSaveLogOption fileLogSetting =
     (False, [],
      Some (''log will not be saved, invalid file log setting type: '' @ typeName fileLogSetting
            @ '', expected bool or string''))"

section \<open>The JSON record and its serialisation\<close>

record logToJSON =
  ClosingTime :: string
  Level :: string
  Process :: string
  Duration :: string
  User :: string
  Message :: string

text \<open>The zero value of the struct (\<open>var jsoner logToJSON\<close>).\<close>

definition zeroJSON :: logToJSON where
  "zeroJSON = \<lparr>ClosingTime = [], Level = [], Process = [], Duration = [], User = [],
                Message = []\<rparr>"

text \<open>
  The struct tags: \<open>time\<close>, \<open>level\<close> and \<open>message\<close> are always emitted; \<open>process\<close>,
  \<open>duration\<close> and \<open>user\<close> carry \<open>omitempty\<close> and are left out when the string is empty.
  The fields come in declaration order.
\<close>

definition jsonFields :: "logToJSON \<Rightarrow> (string \<times> string) list" where
  "jsonFields j =
     [(''time'', ClosingTime j), (''level'', Level j)]
     @ (if Process j = [] then [] else [(''process'', Process j)])
     @ (if Duration j = [] then [] else [(''duration'', Duration j)])
     @ (if User j = [] then [] else [(''user'', User j)])
     @ [(''message'', Message j)]"

text \<open>
  String literals as \<open>encoding/json\<close> writes them (with HTML escaping, as \<open>Marshal\<close>
  does). ASCII bytes are copied unless they are control characters or one of
  the double quote, the backslash, \<open><\<close>, \<open>>\<close> and \<open>&\<close>; a byte from \<open>0x80\<close> starts a UTF-8 sequence, which is copied when it
  is well formed (U+2028 and U+2029 are escaped) and replaced by the escape of U+FFFD, one byte at
  a time, when it is not.
\<close>

definition byte :: "char \<Rightarrow> nat" where
  "byte c = of_char c"

definition htmlSafe :: "char \<Rightarrow> bool" where
  "htmlSafe b \<longleftrightarrow> 0x20 \<le> byte b \<and> byte b < 0x80
     \<and> b \<noteq> dquote \<and> b \<noteq> bslash \<and> b \<noteq> CHR ''<'' \<and> b \<noteq> CHR ''>'' \<and> b \<noteq> CHR ''&''"

definition hex :: "nat \<Rightarrow> char" where
  "hex n = ''0123456789abcdef'' ! (n mod 16)"

definition escapeByte :: "char \<Rightarrow> string" where
  "escapeByte b =
     (if b = bslash \<or> b = dquote then [bslash, b]
      else if byte b = 0x08 then [bslash, CHR ''b'']
      else if byte b = 0x0C then [bslash, CHR ''f'']
      else if byte b = 0x0A then [bslash, CHR ''n'']
      else if byte b = 0x0D then [bslash, CHR ''r'']
      else if byte b = 0x09 then [bslash, CHR ''t'']
      else [bslash, CHR ''u'', CHR ''0'', CHR ''0'', hex (byte b div 16), hex (byte b mod 16)])"

definition between :: "nat \<Rightarrow> nat \<Rightarrow> char \<Rightarrow> bool" where
  "between lo hi c \<longleftrightarrow> lo \<le> byte c \<and> byte c \<le> hi"

text \<open>
  \<open>utf8.DecodeRuneInString\<close> at a leading byte from \<open>0x80\<close>: \<open>Some n\<close> when the
  input starts with a well-formed sequence of \<open>n\<close> bytes, \<open>None\<close> when the library
  answers \<open>(RuneError, 1)\<close>.
\<close>

definition runeSize :: "string \<Rightarrow> nat option" where
  "runeSize s =
     (case s of
        [] \<Rightarrow> None
      | b0 # t0 \<Rightarrow>
          if between 0xC2 0xDF b0 then
            (case t0 of
               b1 # _ \<Rightarrow> if between 0x80 0xBF b1 then Some 2 else None
             | _ \<Rightarrow> None)
          else if between 0xE0 0xEF b0 then
            (case t0 of
               b1 # b2 # _ \<Rightarrow>
                 if between (if byte b0 = 0xE0 then 0xA0 else 0x80)
                            (if byte b0 = 0xED then 0x9F else 0xBF) b1
                    \<and> between 0x80 0xBF b2
                 then Some 3 else None
             | _ \<Rightarrow> None)
          else if between 0xF0 0xF4 b0 then
            (case t0 of
               b1 # b2 # b3 # _ \<Rightarrow>
                 if between (if byte b0 = 0xF0 then 0x90 else 0x80)
                            (if byte b0 = 0xF4 then 0x8F else 0xBF) b1
                    \<and> between 0x80 0xBF b2 \<and> between 0x80 0xBF b3
                 then Some 4 else None
             | _ \<Rightarrow> None)
          else None)"

fun stringBody :: "string \<Rightarrow> string" where
  "stringBody [] = []"
| "stringBody (b # bs) =
     (if byte b < 0x80 then (if htmlSafe b then [b] else escapeByte b) @ stringBody bs
      else (case runeSize (b # bs) of
              None \<Rightarrow> bslash # ''ufffd'' @ stringBody bs
            | Some n \<Rightarrow>
                (if take n (b # bs) = [CHR 0xE2, CHR 0x80, CHR 0xA8] then bslash # ''u2028''
                 else if take n (b # bs) = [CHR 0xE2, CHR 0x80, CHR 0xA9] then bslash # ''u2029''
                 else take n (b # bs))
                @ stringBody (drop (n - 1) bs)))"

definition appendString :: "string \<Rightarrow> string" where
  "appendString v = dquote # stringBody v @ [dquote]"

text \<open>
  \<open>json.MarshalIndent(v, prefix, indent)\<close> on the struct: one member per line, each line
  after the first starting with the prefix and one indent, a space after the colon, and
  the closing brace on a line with the prefix alone. The result is \<open>([]byte, error)\<close>;
  a struct of strings never fails to marshal, so the error is always \<open>nil\<close> (\<open>Inr\<close>).
\<close>

definition member :: "string \<times> string \<Rightarrow> string" where
  "member kv = appendString (fst kv) @ '': '' @ appendString (snd kv)"

definition indented :: "logToJSON \<Rightarrow> string \<Rightarrow> string \<Rightarrow> string" where
  "indented v prefix indent =
     ''{'' @ [newline] @ prefix @ indent
     @ Join (map member (jsonFields v)) ('','' @ [newline] @ prefix @ indent)
     @ [newline] @ prefix @ ''}''"

definition MarshalIndent :: "logToJSON \<Rightarrow> string \<Rightarrow> string \<Rightarrow> string + string" where
  "MarshalIndent v prefix indent = Inr (indented v prefix indent)"

section \<open>The file system\<close>

text \<open>
  The part of the operating system that \<open>saveToFile\<close> touches. A location is the list of
  names leading from the root to a node; the root is always a directory. Path strings are
  resolved component by component as the kernel does: every component that is walked
  through must be an existing directory, \<open>.\<close> and empty components stay in place and
  \<open>..\<close> steps to the parent. There are no symbolic links and no permission bits;
  instead \<open>refuses\<close> tells for each system call that changes or opens something, and
  each location, whether the environment turns the call down (permissions, quota, a
  failing device) and with which error.
\<close>

datatype errno = ENOENT | ENOTDIR | EISDIR | EEXIST | EACCES | EINVAL | EIO | ENOSPC

datatype syscall = SysMkdir | SysCreate | SysOpen | SysFstat | SysFtruncate | SysLseek
  | SysWrite

datatype node = Directory | Regular string

record fs =
  nodes :: "string list \<rightharpoonup> node"
  cwd :: "string list"
  refuses :: "syscall \<Rightarrow> string list \<Rightarrow> errno option"

text \<open>\<open>*os.PathError\<close>: operation, path and cause, and its message.\<close>

datatype PathError = PathError string string errno

fun strerror :: "errno \<Rightarrow> string" where
  "strerror ENOENT = ''no such file or directory''"
| "strerror ENOTDIR = ''not a directory''"
| "strerror EISDIR = ''is a directory''"
| "strerror EEXIST = ''file exists''"
| "strerror EACCES = ''permission denied''"
| "strerror EINVAL = ''invalid argument''"
| "strerror EIO = ''input/output error''"
| "strerror ENOSPC = ''no space left on device''"

fun Error :: "PathError \<Rightarrow> string" where
  "Error (PathError op path e) = op @ '' '' @ path @ '': '' @ strerror e"

fun IsNotExist :: "PathError \<Rightarrow> bool" where
  "IsNotExist (PathError op path e) \<longleftrightarrow> e = ENOENT"

definition nodeAt :: "fs \<Rightarrow> string list \<Rightarrow> node option" where
  "nodeAt s l = (if l = [] then Some Directory else nodes s l)"

text \<open>The components of a path string, as \<open>strings.Split(path, "/")\<close> gives them.\<close>

fun Split :: "string \<Rightarrow> string list" where
  "Split [] = [[]]"
| "Split (c # cs) =
     (if c = CHR ''/'' then [] # Split cs
      else (case Split cs of [] \<Rightarrow> [[c]] | x # xs \<Rightarrow> (c # x) # xs))"

fun walk :: "fs \<Rightarrow> string list \<Rightarrow> string list \<Rightarrow> errno + string list" where
  "walk s cur [] = Inr cur"
| "walk s cur (c # cs) =
     (case nodeAt s cur of
        None \<Rightarrow> Inl ENOENT
      | Some (Regular d) \<Rightarrow> Inl ENOTDIR
      | Some Directory \<Rightarrow>
          if c = [] \<or> c = ''.'' then walk s cur cs
          else if c = ''..'' then walk s (butlast cur) cs
          else walk s (cur @ [c]) cs)"

definition rooted :: "string \<Rightarrow> bool" where
  "rooted path \<longleftrightarrow> path \<noteq> [] \<and> hd path = CHR ''/''"

definition resolve :: "fs \<Rightarrow> string \<Rightarrow> errno + string list" where
  "resolve s path =
     (if path = [] then Inl ENOENT
      else walk s (if rooted path then [] else cwd s) (Split path))"

text \<open>
  \<open>filepath.Clean\<close> and \<open>filepath.Dir\<close> (Unix): purely lexical. \<open>Clean\<close> drops empty
  and \<open>.\<close> elements, cancels an inner \<open>..\<close> against the name before it, drops a
  \<open>..\<close> at the root, and answers \<open>.\<close> for an empty result. \<open>Dir\<close> cleans what
  precedes the final element.
\<close>

fun cleanElems :: "bool \<Rightarrow> string list \<Rightarrow> string list \<Rightarrow> string list" where
  "cleanElems r acc [] = rev acc"
| "cleanElems r acc (c # cs) =
     (if c = [] \<or> c = ''.'' then cleanElems r acc cs
      else if c = ''..'' then
        (case acc of
           [] \<Rightarrow> if r then cleanElems r [] cs else cleanElems r [c] cs
         | a # as \<Rightarrow> if a = ''..'' then cleanElems r (c # acc) cs else cleanElems r as cs)
      else cleanElems r (c # acc) cs)"

definition Clean :: "string \<Rightarrow> string" where
  "Clean path =
     (let es = cleanElems (rooted path) [] (Split path) in
      if rooted path then CHR ''/'' # Join es ''/''
      else if es = [] then ''.'' else Join es ''/'')"

definition Dir :: "string \<Rightarrow> string" where
  "Dir path = Clean (rev (dropWhile (\<lambda>c. c \<noteq> CHR ''/'') (rev path)))"

text \<open>\<open>os.Stat(name)\<close>: the node the name leads to.\<close>

definition Stat :: "string \<Rightarrow> fs \<Rightarrow> PathError + node" where
  "Stat name s =
     (case resolve s name of
        Inl e \<Rightarrow> Inl (PathError ''stat'' name e)
      | Inr l \<Rightarrow>
          (case nodeAt s l of
             None \<Rightarrow> Inl (PathError ''stat'' name ENOENT)
           | Some n \<Rightarrow> Inr n))"

text \<open>
  \<open>os.Mkdir(name, perm)\<close>, the system call: separators at the end of the name do not
  count; the directory that is to hold the new one must exist, the last element must name
  nothing yet, and the environment may refuse.
\<close>

definition Mkdir :: "string \<Rightarrow> fs \<Rightarrow> PathError option \<times> fs" where
  "Mkdir nm s =
     (let cs = rev (dropWhile (\<lambda>c. c = []) (rev (Split nm)))
      in if nm = [] then (Some (PathError ''mkdir'' nm ENOENT), s)
         else if cs = [] then (Some (PathError ''mkdir'' nm EEXIST), s)
         else
           (case walk s (if rooted nm then [] else cwd s) (butlast cs) of
              Inl e \<Rightarrow> (Some (PathError ''mkdir'' nm e), s)
            | Inr cur \<Rightarrow>
                (case nodeAt s cur of
                   None \<Rightarrow> (Some (PathError ''mkdir'' nm ENOENT), s)
                 | Some (Regular d) \<Rightarrow> (Some (PathError ''mkdir'' nm ENOTDIR), s)
                 | Some Directory \<Rightarrow>
                     if last cs = ''.'' \<or> last cs = ''..''
                     then (Some (PathError ''mkdir'' nm EEXIST), s)
                     else
                       (case nodeAt s (cur @ [last cs]) of
                          Some n \<Rightarrow> (Some (PathError ''mkdir'' nm EEXIST), s)
                        | None \<Rightarrow>
                            (case refuses s SysMkdir (cur @ [last cs]) of
                               Some e \<Rightarrow> (Some (PathError ''mkdir'' nm e), s)
                             | None \<Rightarrow>
                                 (None, s\<lparr>nodes := (nodes s)(cur @ [last cs] \<mapsto> Directory)\<rparr>))))))"

text \<open>
  \<open>os.MkdirAll(path, perm)\<close>, as the library does it. When the path is a directory
  already there is nothing to do, and when it is something else that is an error. Otherwise
  the parent is made first in the same way, the parent being the path up to the separator
  before its last element (\<open>elementStart\<close> is the index \<open>j\<close> where that element
  starts, separators at the end of the path set aside), and then the directory itself. A
  \<open>Mkdir\<close> that fails is forgiven when the directory is there afterwards. The error is
  that of the step that failed, so it names the first part of the path that could not be
  made or that is not a directory; directories made before a failure stay.
\<close>

definition elementStart :: "string \<Rightarrow> nat" where
  "elementStart path =
     length (dropWhile (\<lambda>c. c \<noteq> CHR ''/'') (dropWhile (\<lambda>c. c = CHR ''/'') (rev path)))"

function MkdirAll :: "string \<Rightarrow> fs \<Rightarrow> PathError option \<times> fs" where
  "MkdirAll path s =
     (case Stat path s of
        Inr Directory \<Rightarrow> (None, s)
      | Inr (Regular d) \<Rightarrow> (Some (PathError ''mkdir'' path ENOTDIR), s)
      | Inl e \<Rightarrow>
          (case (if 1 < elementStart path
                 then MkdirAll (take (elementStart path - 1) path) s
                 else (None, s)) of
             (Some err, s1) \<Rightarrow> (Some err, s1)
           | (None, s1) \<Rightarrow>
               (case Mkdir path s1 of
                  (None, s2) \<Rightarrow> (None, s2)
                | (Some err, s2) \<Rightarrow>
                    (case Stat path s2 of
                       Inr Directory \<Rightarrow> (None, s2)
                     | _ \<Rightarrow> (Some err, s2)))))"
  by pat_completeness auto
termination
proof (relation "measure (\<lambda>(path, s). length path)")
  show "wf (measure (\<lambda>(path, s). length path))" by simp
next
  fix path :: string and s :: fs and e :: PathError
  assume "1 < elementStart path"
  moreover have "elementStart path \<le> length path"
    unfolding elementStart_def
    using length_dropWhile_le [of "\<lambda>c. c \<noteq> CHR ''/''" "dropWhile (\<lambda>c. c = CHR ''/'') (rev path)"]
      length_dropWhile_le [of "\<lambda>c. c = CHR ''/''" "rev path"]
    by simp
  ultimately show "((take (elementStart path - 1) path, s), (path, s))
        \<in> measure (\<lambda>(path, s). length path)"
    by simp
qed

declare MkdirAll.simps [simp del]

text \<open>\<open>fileExists\<close> of the package.\<close>

definition fileExists :: "string \<Rightarrow> fs \<Rightarrow> bool" where
  "fileExists filename s =
     (case Stat filename s of Inl err \<Rightarrow> \<not> IsNotExist err | Inr n \<Rightarrow> True)"

text \<open>
  An open file (\<open>*os.File\<close>): the name it was opened under, the node it refers to and the
  file offset.
\<close>

record File =
  name :: string
  loc :: "string list"
  pos :: nat

text \<open>\<open>os.Create(name)\<close>: open for reading and writing, create if missing, truncate.\<close>

definition Create :: "string \<Rightarrow> fs \<Rightarrow> (PathError + File) \<times> fs" where
  "Create nm s =
     (case resolve s nm of
        Inl e \<Rightarrow> (Inl (PathError ''open'' nm e), s)
      | Inr l \<Rightarrow>
          (case nodeAt s l of
             Some Directory \<Rightarrow> (Inl (PathError ''open'' nm EISDIR), s)
           | Some (Regular d) \<Rightarrow>
               (case refuses s SysOpen l of
                  Some e \<Rightarrow> (Inl (PathError ''open'' nm e), s)
                | None \<Rightarrow> (Inr \<lparr>name = nm, loc = l, pos = 0\<rparr>,
                            s\<lparr>nodes := (nodes s)(l \<mapsto> Regular [])\<rparr>))
           | None \<Rightarrow>
               (case refuses s SysCreate l of
                  Some e \<Rightarrow> (Inl (PathError ''open'' nm e), s)
                | None \<Rightarrow> (Inr \<lparr>name = nm, loc = l, pos = 0\<rparr>,
                            s\<lparr>nodes := (nodes s)(l \<mapsto> Regular [])\<rparr>))))"

text \<open>\<open>os.OpenFile(name, os.O_RDWR, perm)\<close>: the file must exist.\<close>

definition OpenFile :: "string \<Rightarrow> fs \<Rightarrow> PathError + File" where
  "OpenFile nm s =
     (case resolve s nm of
        Inl e \<Rightarrow> Inl (PathError ''open'' nm e)
      | Inr l \<Rightarrow>
          (case nodeAt s l of
             None \<Rightarrow> Inl (PathError ''open'' nm ENOENT)
           | Some Directory \<Rightarrow> Inl (PathError ''open'' nm EISDIR)
           | Some (Regular d) \<Rightarrow>
               (case refuses s SysOpen l of
                  Some e \<Rightarrow> Inl (PathError ''open'' nm e)
                | None \<Rightarrow> Inr \<lparr>name = nm, loc = l, pos = 0\<rparr>)))"

definition contents :: "fs \<Rightarrow> string list \<Rightarrow> string" where
  "contents s l = (case nodes s l of Some (Regular d) \<Rightarrow> d | _ \<Rightarrow> [])"

text \<open>\<open>file.Stat()\<close>, of which only \<open>Size()\<close> is used.\<close>

definition Size :: "File \<Rightarrow> fs \<Rightarrow> PathError + int" where
  "Size f s =
     (case refuses s SysFstat (loc f) of
        Some e \<Rightarrow> Inl (PathError ''stat'' (name f) e)
      | None \<Rightarrow> Inr (int (length (contents s (loc f)))))"

text \<open>\<open>file.Truncate(size)\<close>: cut, or pad with zero bytes.\<close>

definition Truncate :: "File \<Rightarrow> int \<Rightarrow> fs \<Rightarrow> PathError option \<times> fs" where
  "Truncate f n s =
     (if n < 0 then (Some (PathError ''truncate'' (name f) EINVAL), s)
      else (case refuses s SysFtruncate (loc f) of
              Some e \<Rightarrow> (Some (PathError ''truncate'' (name f) e), s)
            | None \<Rightarrow>
                (let d = contents s (loc f) in
                 (None, s\<lparr>nodes := (nodes s)(loc f \<mapsto>
                    Regular (take (nat n) d @ replicate (nat n - length d) (CHR 0x00)))\<rparr>))))"

text \<open>\<open>file.Seek(offset, io.SeekEnd)\<close>: the new offset, which must not be negative.\<close>

definition SeekEnd :: "File \<Rightarrow> int \<Rightarrow> fs \<Rightarrow> PathError + File" where
  "SeekEnd f offset s =
     (let p = int (length (contents s (loc f))) + offset in
      if p < 0 then Inl (PathError ''seek'' (name f) EINVAL)
      else (case refuses s SysLseek (loc f) of
              Some e \<Rightarrow> Inl (PathError ''seek'' (name f) e)
            | None \<Rightarrow> Inr (f\<lparr>pos := nat p\<rparr>)))"

text \<open>
  \<open>file.WriteString(data)\<close>: the bytes replace what is stored from the offset on and
  extend the file when they reach past its end; a refused write stores nothing.
\<close>

definition WriteString :: "File \<Rightarrow> string \<Rightarrow> fs \<Rightarrow> PathError option \<times> File \<times> fs" where
  "WriteString f data s =
     (case refuses s SysWrite (loc f) of
        Some e \<Rightarrow> (Some (PathError ''write'' (name f) e), f, s)
      | None \<Rightarrow>
          (let d = contents s (loc f);
               d' = take (pos f) (d @ replicate (pos f - length d) (CHR 0x00))
                    @ data @ drop (pos f + length data) d
           in (None, f\<lparr>pos := pos f + length data\<rparr>,
               s\<lparr>nodes := (nodes s)(loc f \<mapsto> Regular d')\<rparr>)))"

section \<open>Appending a record to the log file\<close>

text \<open>
  \<open>saveToFile\<close> returns an \<open>error\<close>, modelled by its message (\<open>None\<close> is \<open>nil\<close>),
  and the file system it leaves behind.
\<close>

definition saveToFile :: "logToJSON \<Rightarrow> string \<Rightarrow> fs \<Rightarrow> string option \<times> fs" where
  "saveToFile jsoner filePath s =
     (case MkdirAll (Dir filePath) s of
        (Some err, s1) \<Rightarrow> (Some (''directory creation failed, '' @ Error err), s1)
      | (None, s1) \<Rightarrow>
     (case (if \<not> fileExists filePath s1
            then (case Create filePath s1 of
                    (Inl err, s2) \<Rightarrow> (Some err, s2)
                  | (Inr file, s2) \<Rightarrow> (None, s2))
            else (None, s1)) of
        (Some err, s2) \<Rightarrow> (Some (''file creation failed, '' @ Error err), s2)
      | (None, s2) \<Rightarrow>
     (case OpenFile filePath s2 of
        Inl err \<Rightarrow> (Some (''file open failed, '' @ Error err), s2)
      | Inr file \<Rightarrow>
     (case Size file s2 of
        Inl err \<Rightarrow> (Some (''file stat failed, '' @ Error err), s2)
      | Inr statSize \<Rightarrow>
     (case MarshalIndent jsoner ''  '' ''  '' of
        Inl err \<Rightarrow> (Some (''JSON marshaling failed, '' @ err), s2)
      | Inr jsonData \<Rightarrow>
          if statSize = 0 then
            (case WriteString file (''['' @ [newline] @ ''  '' @ jsonData @ [newline] @ '']'') s2 of
               (Some err, file', s3) \<Rightarrow> (Some (''initial write failed, '' @ Error err), s3)
             | (None, file', s3) \<Rightarrow> (None, s3))
          else
            (case Truncate file (statSize - 1) s2 of
               (Some err, s3) \<Rightarrow> (Some (''truncate failed, '' @ Error err), s3)
             | (None, s3) \<Rightarrow>
            (case SeekEnd file (- 1) s3 of
               Inl err \<Rightarrow> (Some (''seek failed, '' @ Error err), s3)
             | Inr file' \<Rightarrow>
            (case WriteString file' ('','' @ [newline] @ ''  '' @ jsonData @ [newline] @ '']'') s3 of
               (Some err, file'', s4) \<Rightarrow> (Some (''append failed, '' @ Error err), s4)
             | (None, file'', s4) \<Rightarrow> (None, s4)))))))))"

section \<open>The logger\<close>

record LogOptions =
  StartTime :: time
  Process :: string
  User :: string
  FileLog :: any

text \<open>The zero value, used when a call passes no options.\<close>

definition zeroOptions :: LogOptions where
  "zeroOptions = \<lparr>StartTime = 0, Process = [], User = [], FileLog = Nil\<rparr>"

text \<open>
  Of the \<open>Logger\<close> only the default file-log setting matters; the \<open>*log.Logger\<close> it
  also holds is never used by \<open>logMessage\<close>.
\<close>

record Logger =
  FileLog :: any

definition New :: Logger where
  "New = \<lparr>FileLog = Bool False\<rparr>"

definition SetDefaultFileLog :: "Logger \<Rightarrow> any \<Rightarrow> Logger" where
  "SetDefaultFileLog l fileLog = l\<lparr>Logger.FileLog := fileLog\<rparr>"

text \<open>
  The spinner is the console: while it runs it shows \<open>Prefix\<close>, its own animation
  character and \<open>Suffix\<close>; \<open>Stop\<close> replaces that by \<open>FinalMSG\<close>, the line that stays
  on the terminal.
\<close>

record Spinner =
  Prefix :: string
  Suffix :: string
  FinalMSG :: string

text \<open>The UTF-8 bytes of the check mark U+2713 in the source's string literal.\<close>

definition checkMark :: string where
  "checkMark = [CHR 0xE2, CHR 0x9C, CHR 0x93]"

text \<open>
  What \<open>logMessage\<close> leaves behind when it reaches \<open>s.Stop()\<close>: the spinner, the
  local variables \<open>jsoner\<close> and \<open>logParts\<close>, and the file system.
\<close>

record logged =
  spinnerOut :: Spinner
  jsonerOut :: logToJSON
  logPartsOut :: "string list"
  fsOut :: fs

text \<open>
  The options of a call are variadic: \<open>opts\<close> is the first one given, or the zero
  value. The setting in force is the call's \<open>FileLog\<close> unless that is nil.
\<close>

definition optionsOf :: "LogOptions list \<Rightarrow> LogOptions" where
  "optionsOf options = (if length options > 0 then options ! 0 else zeroOptions)"

definition fileLogSettingOf :: "Logger \<Rightarrow> LogOptions \<Rightarrow> any" where
  "fileLogSettingOf l opts =
     (if LogOptions.FileLog opts \<noteq> Nil then LogOptions.FileLog opts else Logger.FileLog l)"

text \<open>\<open>fmt.Sprintf("%d ms", currentTime.Sub(opts.StartTime).Milliseconds())\<close>.\<close>

definition durationText :: "clock \<Rightarrow> LogOptions \<Rightarrow> string" where
  "durationText clk opts = itoa (Milliseconds (Sub (currentTime clk) (StartTime opts))) @ '' ms''"

text \<open>
  The first half of \<open>logMessage\<close>, up to the closing time: it starts the spinner and
  builds \<open>logParts\<close>, the spinner's suffix and \<open>jsoner\<close> side by side.
\<close>

definition formatting ::
  "string \<Rightarrow> string \<Rightarrow> LogOptions \<Rightarrow> clock \<Rightarrow> string list \<times> Spinner \<times> logToJSON" where
  "formatting level message opts clk =
     (let sp = \<lparr>Prefix = Format clk (startingTime clk) @ '' '', Suffix = [], FinalMSG = []\<rparr>;
          logParts = ['' ['' @ level @ '']''];
          sp = sp\<lparr>Suffix := logParts ! 0\<rparr>;
          jsoner = zeroJSON\<lparr>Level := level\<rparr>;
          (logParts, sp, jsoner) =
            (if LogOptions.Process opts \<noteq> [] then
               (let parts = logParts @ [LogOptions.Process opts]
                in (parts, sp\<lparr>Suffix := Join parts '' | ''\<rparr>,
                    jsoner\<lparr>logToJSON.Process := LogOptions.Process opts\<rparr>))
             else (logParts, sp, jsoner));
          (logParts, sp, jsoner) =
            (if \<not> IsZero (StartTime opts) then
               (let duration = durationText clk opts;
                    parts = logParts @ [duration]
                in (parts, sp\<lparr>Suffix := Join parts '' | ''\<rparr>, jsoner\<lparr>Duration := duration\<rparr>))
             else (logParts, sp, jsoner));
          (logParts, sp, jsoner) =
            (if LogOptions.User opts \<noteq> [] then
               (let parts = logParts @ [LogOptions.User opts]
                in (parts, sp\<lparr>Suffix := Join parts '' | ''\<rparr>,
                    jsoner\<lparr>logToJSON.User := LogOptions.User opts\<rparr>))
             else (logParts, sp, jsoner));
          logParts = logParts @ [message];
          sp = sp\<lparr>Suffix := Join logParts '' | ''\<rparr>;
          jsoner = jsoner\<lparr>Message := message\<rparr>;
          jsoner = jsoner\<lparr>ClosingTime := Format clk (closingTime clk)\<rparr>
      in (logParts, sp, jsoner))"

text \<open>
  The whole of \<open>logMessage\<close>: the options and the setting in force, the formatting, and
  then the second half, which checks the setting, appends to the file when asked to and
  fixes the final line.
\<close>

definition logMessage ::
  "Logger \<Rightarrow> string \<Rightarrow> string \<Rightarrow> LogOptions list \<Rightarrow> clock \<Rightarrow> fs \<Rightarrow> logged" where
  "logMessage l level message options clk s =
     (let opts = optionsOf options;
          fileLogSetting = fileLogSettingOf l opts;
          (logParts, sp, jsoner) = formatting level message opts clk;
          stamp = Format clk (closingTime clk);
          (shouldSaveToFile, filePath, err) = checkSaveLogOption fileLogSetting;
          (logParts, sp) =
            (case err of
               Some e \<Rightarrow>
                 (let parts = logParts @ [''Error: '' @ e]
                  in (parts, sp\<lparr>FinalMSG := stamp @ '' x'' @ Join parts '' | '' @ [newline]\<rparr>))
             | None \<Rightarrow> (logParts, sp))
      in if shouldSaveToFile then
           (case saveToFile jsoner filePath s of
              (Some e, s') \<Rightarrow>
                (let (logParts, jsoner) =
                       (if level = INFO
                        then (logParts[0 := '' ['' @ WARN @ '']''], jsoner\<lparr>Level := WARN\<rparr>)
                        else (logParts, jsoner));
                     logParts = logParts @ [''Error: '' @ e]
                 in \<lparr>spinnerOut =
                       sp\<lparr>FinalMSG := stamp @ '' x'' @ Join logParts '' | '' @ [newline]\<rparr>,
                     jsonerOut = jsoner, logPartsOut = logParts, fsOut = s'\<rparr>)
            | (None, s') \<Rightarrow>
                (let logParts = logParts @ [''Log saved!'']
                 in \<lparr>spinnerOut =
                       sp\<lparr>FinalMSG := stamp @ '' '' @ checkMark @ Join logParts '' | ''
                                        @ [newline]\<rparr>,
                     jsonerOut = jsoner, logPartsOut = logParts, fsOut = s'\<rparr>))
         else
           \<lparr>spinnerOut =
              sp\<lparr>FinalMSG := stamp @ '' '' @ checkMark @ Join logParts '' | '' @ [newline]\<rparr>,
            jsonerOut = jsoner, logPartsOut = logParts, fsOut = s\<rparr>)"

text \<open>
  How a call ends: it returns to the caller, it ends the process with an exit status
  (\<open>os.Exit\<close>), or it panics with a value that a deferred \<open>recover\<close> of an enclosing
  function receives.
\<close>

datatype control = Returned | Exited int | Panicked string

text \<open>
  A function that defers a closure calling \<open>recover\<close>, around a body, as
  \<open>TestWithPanic\<close> does around its call of \<open>Panic\<close>: a panic of the body is handed to
  the closure and the function then returns normally; an exit is not intercepted.
\<close>

definition recovering :: "(string \<Rightarrow> 'a \<Rightarrow> 'a) \<Rightarrow> control \<times> 'a \<Rightarrow> control \<times> 'a" where
  "recovering handler r =
     (case r of (Panicked v, st) \<Rightarrow> (Returned, handler v st) | (c, st) \<Rightarrow> (c, st))"

definition Info :: "Logger \<Rightarrow> string \<Rightarrow> LogOptions list \<Rightarrow> clock \<Rightarrow> fs \<Rightarrow> control \<times> logged" where
  "Info l message options clk s = (Returned, logMessage l INFO message options clk s)"

definition Warn :: "Logger \<Rightarrow> string \<Rightarrow> LogOptions list \<Rightarrow> clock \<Rightarrow> fs \<Rightarrow> control \<times> logged" where
  "Warn l message options clk s = (Returned, logMessage l WARN message options clk s)"

definition Fatal :: "Logger \<Rightarrow> string \<Rightarrow> LogOptions list \<Rightarrow> clock \<Rightarrow> fs \<Rightarrow> control \<times> logged" where
  "Fatal l message options clk s = (Exited 1, logMessage l FATAL message options clk s)"

definition Panic :: "Logger \<Rightarrow> string \<Rightarrow> LogOptions list \<Rightarrow> clock \<Rightarrow> fs \<Rightarrow> control \<times> logged" where
  "Panic l message options clk s = (Panicked message, logMessage l PANIC message options clk s)"

section \<open>The specification's vocabulary\<close>

text \<open>
  The ordered parts of the display line as the specification lists them: the bracketed
  level, the process if it is not empty, the duration if the start time is not zero, the
  user if it is not empty, and the message.
\<close>

definition displayParts :: "string \<Rightarrow> LogOptions \<Rightarrow> clock \<Rightarrow> string \<Rightarrow> string list" where
  "displayParts level opts clk message =
     ['' ['' @ level @ '']'']
     @ (if LogOptions.Process opts = [] then [] else [LogOptions.Process opts])
     @ (if IsZero (StartTime opts) then [] else [durationText clk opts])
     @ (if LogOptions.User opts = [] then [] else [LogOptions.User opts])
     @ [message]"

text \<open>The record of the specification's data model for a call.\<close>

definition recordOf :: "string \<Rightarrow> LogOptions \<Rightarrow> clock \<Rightarrow> string \<Rightarrow> logToJSON" where
  "recordOf level opts clk message =
     \<lparr>ClosingTime = Format clk (closingTime clk), Level = level,
      Process = LogOptions.Process opts,
      Duration = (if IsZero (StartTime opts) then [] else durationText clk opts),
      User = LogOptions.User opts, Message = message\<rparr>"

text \<open>A sequence of appends to one path, each on the file system the last one left.\<close>

fun appendAll :: "logToJSON list \<Rightarrow> string \<Rightarrow> fs \<Rightarrow> string option \<times> fs" where
  "appendAll [] filePath s = (None, s)"
| "appendAll (j # js) filePath s =
     (case saveToFile j filePath s of
        (Some e, s') \<Rightarrow> (Some e, s')
      | (None, s') \<Rightarrow> appendAll js filePath s')"

text \<open>
  The file is absent at the moment \<open>saveToFile\<close> looks for it, that is once the
  directories of the path are in place.
\<close>

definition absent :: "string \<Rightarrow> fs \<Rightarrow> bool" where
  "absent filePath s \<longleftrightarrow> \<not> fileExists filePath (snd (MkdirAll (Dir filePath) s))"

text \<open>
  The text of a JSON array with one element per entry: an opening bracket, the elements
  separated by commas, a closing bracket, laid out as \<open>saveToFile\<close> lays them out.
\<close>

definition arrayText :: "string list \<Rightarrow> string" where
  "arrayText elems =
     ''['' @ [newline] @ ''  '' @ Join elems ('','' @ [newline] @ ''  '') @ [newline] @ '']''"

text \<open>
  Reading JSON. The reader accepts the JSON texts that are an array of objects whose
  members are strings, with any white space between the tokens; every text it accepts is
  a JSON text. A string token keeps the body of its literal as it is spelled, escapes
  included; bytes from \<open>0x80\<close> are taken as they come.
\<close>

datatype token = LBracket | RBracket | LBrace | RBrace | Colon | Comma | Str string

datatype lexState = Outside | InString string | Escaped string | Hex nat string

definition isSpace :: "char \<Rightarrow> bool" where
  "isSpace c \<longleftrightarrow> c = CHR '' '' \<or> c = newline \<or> c = CHR 0x0D \<or> c = CHR 0x09"

definition isHex :: "char \<Rightarrow> bool" where
  "isHex c \<longleftrightarrow> c \<in> set ''0123456789abcdefABCDEF''"

definition punct :: "char \<Rightarrow> token option" where
  "punct c =
     (if c = CHR ''['' then Some LBracket else if c = CHR '']'' then Some RBracket
      else if c = CHR ''{'' then Some LBrace else if c = CHR ''}'' then Some RBrace
      else if c = CHR '':'' then Some Colon else if c = CHR '','' then Some Comma
      else None)"

fun lex :: "lexState \<Rightarrow> string \<Rightarrow> token list option" where
  "lex Outside [] = Some []"
| "lex (InString body) [] = None"
| "lex (Escaped body) [] = None"
| "lex (Hex n body) [] = None"
| "lex Outside (c # cs) =
     (if isSpace c then lex Outside cs
      else if c = dquote then lex (InString []) cs
      else (case punct c of
              Some t \<Rightarrow> map_option (Cons t) (lex Outside cs)
            | None \<Rightarrow> None))"
| "lex (InString body) (c # cs) =
     (if c = dquote then map_option (Cons (Str body)) (lex Outside cs)
      else if c = bslash then lex (Escaped (body @ [c])) cs
      else if byte c < 0x20 then None
      else lex (InString (body @ [c])) cs)"
| "lex (Escaped body) (c # cs) =
     (if c = dquote \<or> c = bslash \<or> c \<in> set ''/bfnrt'' then lex (InString (body @ [c])) cs
      else if c = CHR ''u'' then lex (Hex 4 (body @ [c])) cs
      else None)"
| "lex (Hex n body) (c # cs) =
     (if \<not> isHex c then None
      else if n \<le> 1 then lex (InString (body @ [c])) cs
      else lex (Hex (n - 1) (body @ [c])) cs)"

datatype expect = ArrayStart | FirstObject | FirstKey | AfterKey string | Value string
  | AfterValue | NextKey | AfterObject | NextObject | Done

definition advance ::
  "expect \<Rightarrow> (string \<times> string) list list \<Rightarrow> (string \<times> string) list \<Rightarrow> token
   \<Rightarrow> (expect \<times> (string \<times> string) list list \<times> (string \<times> string) list) option" where
  "advance e objs ms t =
     (case e of
        ArrayStart \<Rightarrow> (case t of LBracket \<Rightarrow> Some (FirstObject, objs, ms) | _ \<Rightarrow> None)
      | FirstObject \<Rightarrow>
          (case t of RBracket \<Rightarrow> Some (Done, objs, ms) | LBrace \<Rightarrow> Some (FirstKey, objs, [])
           | _ \<Rightarrow> None)
      | FirstKey \<Rightarrow>
          (case t of RBrace \<Rightarrow> Some (AfterObject, objs @ [ms], [])
           | Str k \<Rightarrow> Some (AfterKey k, objs, ms) | _ \<Rightarrow> None)
      | AfterKey k \<Rightarrow> (case t of Colon \<Rightarrow> Some (Value k, objs, ms) | _ \<Rightarrow> None)
      | Value k \<Rightarrow> (case t of Str v \<Rightarrow> Some (AfterValue, objs, ms @ [(k, v)]) | _ \<Rightarrow> None)
      | AfterValue \<Rightarrow>
          (case t of Comma \<Rightarrow> Some (NextKey, objs, ms)
           | RBrace \<Rightarrow> Some (AfterObject, objs @ [ms], []) | _ \<Rightarrow> None)
      | NextKey \<Rightarrow> (case t of Str k \<Rightarrow> Some (AfterKey k, objs, ms) | _ \<Rightarrow> None)
      | AfterObject \<Rightarrow>
          (case t of Comma \<Rightarrow> Some (NextObject, objs, ms) | RBracket \<Rightarrow> Some (Done, objs, ms)
           | _ \<Rightarrow> None)
      | NextObject \<Rightarrow> (case t of LBrace \<Rightarrow> Some (FirstKey, objs, []) | _ \<Rightarrow> None)
      | Done \<Rightarrow> None)"

fun parse ::
  "expect \<Rightarrow> (string \<times> string) list list \<Rightarrow> (string \<times> string) list \<Rightarrow> token list
   \<Rightarrow> (string \<times> string) list list option" where
  "parse e objs ms [] = (if e = Done then Some objs else None)"
| "parse e objs ms (t # ts) =
     (case advance e objs ms t of
        None \<Rightarrow> None
      | Some (e', objs', ms') \<Rightarrow> parse e' objs' ms' ts)"

definition parseArray :: "string \<Rightarrow> (string \<times> string) list list option" where
  "parseArray text =
     (case lex Outside text of None \<Rightarrow> None | Some ts \<Rightarrow> parse ArrayStart [] [] ts)"

definition parseObject :: "string \<Rightarrow> (string \<times> string) list option" where
  "parseObject text =
     (case parseArray (''['' @ text @ '']'') of Some [ms] \<Rightarrow> Some ms | _ \<Rightarrow> None)"

text \<open>
  The members of a record as they are spelled in its serialisation: each key with the
  body of the string literal of its value.
\<close>

definition spelled :: "logToJSON \<Rightarrow> (string \<times> string) list" where
  "spelled j = map (\<lambda>kv. (fst kv, stringBody (snd kv))) (jsonFields j)"

section \<open>Scenarios\<close>

text \<open>
  A file system whose root does not allow new entries, with \<open>/home\<close> as working
  directory, as an unprivileged user finds it; and a clock whose readings for the duration
  and for the closing time fall into different milliseconds.
\<close>

definition readOnlyRoot :: fs where
  "readOnlyRoot =
     \<lparr>nodes = [[''home''] \<mapsto> Directory], cwd = [''home''],
      refuses = (\<lambda>c l. if c = SysMkdir \<and> length l = 1 then Some EACCES else None)\<rparr>"

definition exampleClock :: clock where
  "exampleClock =
     \<lparr>startingTime = 1000000000, currentTime = 1250900000, closingTime = 1251100000,
      Format = (\<lambda>t. ''2024-01-02 03:04:05'')\<rparr>"

text \<open>The same directories where the environment refuses nothing.\<close>

definition quietHome :: fs where
  "quietHome = \<lparr>nodes = [[''home''] \<mapsto> Directory], cwd = [''home''], refuses = (\<lambda>c l. None)\<rparr>"

section \<open>Notions used in the proofs\<close>

text \<open>\<open>os.ReadFile(name)\<close>: the bytes of a regular file.\<close>

definition ReadFile :: "string \<Rightarrow> fs \<Rightarrow> PathError + string" where
  "ReadFile nm s =
     (case resolve s nm of
        Inl e \<Rightarrow> Inl (PathError ''open'' nm e)
      | Inr l \<Rightarrow>
          (case nodeAt s l of
             None \<Rightarrow> Inl (PathError ''open'' nm ENOENT)
           | Some Directory \<Rightarrow> Inl (PathError ''read'' nm EISDIR)
           | Some (Regular d) \<Rightarrow> Inr d))"

text \<open>
  One file system keeps the directories, or the regular files, of another: where the first
  has a directory (a regular file with some bytes) the second has the same.
\<close>

definition dirsKept :: "fs \<Rightarrow> fs \<Rightarrow> bool" where
  "dirsKept s s' \<longleftrightarrow>
     cwd s' = cwd s \<and> (\<forall>l. nodeAt s l = Some Directory \<longrightarrow> nodeAt s' l = Some Directory)"

definition filesKept :: "fs \<Rightarrow> fs \<Rightarrow> bool" where
  "filesKept s s' \<longleftrightarrow> (\<forall>l d. nodes s l = Some (Regular d) \<longrightarrow> nodes s' l = Some (Regular d))"

text \<open>
  The tokens of a list of members and of a list of objects, separated by commas; a byte
  that a string literal may hold as it is; and a member with key and value as their
  literals spell them.
\<close>

fun memberTokens :: "(string \<times> string) list \<Rightarrow> token list" where
  "memberTokens [] = []"
| "memberTokens [kv] = [Str (fst kv), Colon, Str (snd kv)]"
| "memberTokens (kv # kv' # ms) = Str (fst kv) # Colon # Str (snd kv) # Comma # memberTokens (kv' # ms)"

fun objectTokens :: "(string \<times> string) list list \<Rightarrow> token list" where
  "objectTokens [] = []"
| "objectTokens [ms] = LBrace # memberTokens ms @ [RBrace]"
| "objectTokens (ms # ms' # objs) = LBrace # memberTokens ms @ RBrace # Comma # objectTokens (ms' # objs)"

definition plain :: "char \<Rightarrow> bool" where
  "plain c \<longleftrightarrow> c \<noteq> dquote \<and> c \<noteq> bslash \<and> 0x20 \<le> byte c"

definition literal :: "string \<times> string \<Rightarrow> string \<times> string" where
  "literal kv = (stringBody (fst kv), stringBody (snd kv))"

text \<open>
  An element of a path that names something (neither empty nor \<open>.\<close>); that no location
  from a directory along a list of names, short of the last, holds a regular file; and that
  the directory and every location along the names after it is a directory.
\<close>

definition named :: "string \<Rightarrow> bool" where
  "named c \<longleftrightarrow> c \<noteq> [] \<and> c \<noteq> ''.''"

fun clearWay :: "fs \<Rightarrow> string list \<Rightarrow> string list \<Rightarrow> bool" where
  "clearWay s cur [] = True"
| "clearWay s cur (c # cs) =
     (case nodeAt s cur of Some (Regular d) \<Rightarrow> False | _ \<Rightarrow> clearWay s (cur @ [c]) cs)"

fun dirsExist :: "fs \<Rightarrow> string list \<Rightarrow> string list \<Rightarrow> bool" where
  "dirsExist s cur [] = (nodeAt s cur = Some Directory)"
| "dirsExist s cur (c # cs) = (nodeAt s cur = Some Directory \<and> dirsExist s (cur @ [c]) cs)"

section \<open>Properties of the logger\<close>

lemma Join_append_last: "xs \<noteq> [] \<Longrightarrow> Join (xs @ [x]) sep = Join xs sep @ sep @ x"
  by (induction xs sep rule: Join.induct) auto

lemma checkSaveLogOption_saving:
  "checkSaveLogOption v = (True, path, err) \<Longrightarrow> err = None"
  by (cases v) (auto split: if_splits)

lemma optionsOf_simps:
  "optionsOf [] = zeroOptions" "optionsOf (opts # rest) = opts"
  by (simp_all add: optionsOf_def)

lemma formatting_eq:
  "formatting level message opts clk =
     (displayParts level opts clk message,
      \<lparr>Prefix = Format clk (startingTime clk) @ '' '',
       Suffix = Join (displayParts level opts clk message) '' | '', FinalMSG = []\<rparr>,
      recordOf level opts clk message)"
  by (simp add: formatting_def Let_def displayParts_def recordOf_def zeroJSON_def)

lemma displayParts_level:
  "(displayParts level opts clk message)[0 := '' ['' @ level' @ '']'']
     = displayParts level' opts clk message"
  by (simp add: displayParts_def)

lemma recordOf_level:
  "(recordOf level opts clk message)\<lparr>Level := level'\<rparr> = recordOf level' opts clk message"
  by (simp add: recordOf_def)

lemma logMessage_not_saving:
  assumes "checkSaveLogOption (fileLogSettingOf l (optionsOf options)) = (False, path, err)"
  shows "logMessage l level message options clk s =
     \<lparr>spinnerOut =
        \<lparr>Prefix = Format clk (startingTime clk) @ '' '',
         Suffix = Join (displayParts level (optionsOf options) clk message) '' | '',
         FinalMSG = Format clk (closingTime clk) @ '' '' @ checkMark
            @ Join (displayParts level (optionsOf options) clk message
                    @ (case err of None \<Rightarrow> [] | Some e \<Rightarrow> [''Error: '' @ e])) '' | ''
            @ [newline]\<rparr>,
      jsonerOut = recordOf level (optionsOf options) clk message,
      logPartsOut = displayParts level (optionsOf options) clk message
                    @ (case err of None \<Rightarrow> [] | Some e \<Rightarrow> [''Error: '' @ e]),
      fsOut = s\<rparr>"
  using assms
  by (cases err) (simp_all add: logMessage_def Let_def formatting_eq)

lemma logMessage_saved:
  assumes "checkSaveLogOption (fileLogSettingOf l (optionsOf options)) = (True, path, err)"
    and "saveToFile (recordOf level (optionsOf options) clk message) path s = (None, s')"
  shows "logMessage l level message options clk s =
          \<lparr>spinnerOut =
             \<lparr>Prefix = Format clk (startingTime clk) @ '' '',
              Suffix = Join (displayParts level (optionsOf options) clk message) '' | '',
              FinalMSG = Format clk (closingTime clk) @ '' '' @ checkMark
                 @ Join (displayParts level (optionsOf options) clk message @ [''Log saved!'']) '' | ''
                 @ [newline]\<rparr>,
           jsonerOut = recordOf level (optionsOf options) clk message,
           logPartsOut = displayParts level (optionsOf options) clk message @ [''Log saved!''],
           fsOut = s'\<rparr>"
proof -
  have e: "err = None" using assms(1) by (rule checkSaveLogOption_saving)
  show ?thesis using assms e
    by (simp add: logMessage_def Let_def formatting_eq)
qed

lemma logMessage_failed:
  assumes "checkSaveLogOption (fileLogSettingOf l (optionsOf options)) = (True, path, err)"
    and "saveToFile (recordOf level (optionsOf options) clk message) path s = (Some e, s')"
  shows "logMessage l level message options clk s =
          \<lparr>spinnerOut =
             \<lparr>Prefix = Format clk (startingTime clk) @ '' '',
              Suffix = Join (displayParts level (optionsOf options) clk message) '' | '',
              FinalMSG = Format clk (closingTime clk) @ '' x''
                 @ Join (displayParts (if level = INFO then WARN else level) (optionsOf options) clk message
                         @ [''Error: '' @ e]) '' | ''
                 @ [newline]\<rparr>,
           jsonerOut = recordOf (if level = INFO then WARN else level) (optionsOf options) clk message,
           logPartsOut = displayParts (if level = INFO then WARN else level) (optionsOf options) clk message
                         @ [''Error: '' @ e],
           fsOut = s'\<rparr>"
proof -
  have e: "err = None" using assms(1) by (rule checkSaveLogOption_saving)
  show ?thesis using assms e
    by (simp add: logMessage_def Let_def formatting_eq recordOf_level) (simp add: displayParts_def)
qed

text \<open>
  Claim C4. When saving is enabled and the append fails, a call at level INFO ends with
  \<open>WARN\<close> in its record and as the first part of the final line, which is built
  afterwards; at every other level the level stays as it was.
\<close>
theorem failed_save_turns_INFO_into_WARN:
  assumes "checkSaveLogOption (fileLogSettingOf l (optionsOf options)) = (True, path, None)"
    and "fst (saveToFile (recordOf level (optionsOf options) clk message) path s) = Some e"
  shows "Level (jsonerOut (logMessage l level message options clk s))
           = (if level = INFO then WARN else level)
       \<and> hd (logPartsOut (logMessage l level message options clk s))
           = '' ['' @ (if level = INFO then WARN else level) @ '']''
       \<and> FinalMSG (spinnerOut (logMessage l level message options clk s))
           = Format clk (closingTime clk) @ '' x''
             @ Join (displayParts (if level = INFO then WARN else level) (optionsOf options) clk message
                     @ [''Error: '' @ e]) '' | ''
             @ [newline]"
proof -
  obtain s' where "saveToFile (recordOf level (optionsOf options) clk message) path s = (Some e, s')"
    using assms(2) by (cases "saveToFile (recordOf level (optionsOf options) clk message) path s") auto
  from logMessage_failed [OF assms(1) this] show ?thesis
    by (simp add: recordOf_def displayParts_def)
qed

theorem failed_save_turns_INFO_into_WARN_witness:
  "checkSaveLogOption (fileLogSettingOf New (optionsOf [zeroOptions\<lparr>LogOptions.FileLog := String ''/invalid/path/test.json''\<rparr>]))
     = (True, ''/invalid/path/test.json'', None)
   \<and> fst (saveToFile (recordOf INFO (optionsOf [zeroOptions\<lparr>LogOptions.FileLog := String ''/invalid/path/test.json''\<rparr>]) exampleClock ''Test 6: Error handling test'')
        ''/invalid/path/test.json'' readOnlyRoot)
     = Some ''directory creation failed, mkdir /invalid: permission denied''
   \<and> Level (jsonerOut (logMessage New INFO ''Test 6: Error handling test''
        [zeroOptions\<lparr>LogOptions.FileLog := String ''/invalid/path/test.json''\<rparr>] exampleClock readOnlyRoot)) = ''WARN''
   \<and> hd (logPartsOut (logMessage New INFO ''Test 6: Error handling test''
        [zeroOptions\<lparr>LogOptions.FileLog := String ''/invalid/path/test.json''\<rparr>] exampleClock readOnlyRoot)) = '' [WARN]''"
proof -
  have a: "checkSaveLogOption (fileLogSettingOf New (optionsOf [zeroOptions\<lparr>LogOptions.FileLog := String ''/invalid/path/test.json''\<rparr>]))
     = (True, ''/invalid/path/test.json'', None)"
    by code_simp
  have b: "fst (saveToFile (recordOf INFO (optionsOf [zeroOptions\<lparr>LogOptions.FileLog := String ''/invalid/path/test.json''\<rparr>]) exampleClock ''Test 6: Error handling test'')
        ''/invalid/path/test.json'' readOnlyRoot)
     = Some ''directory creation failed, mkdir /invalid: permission denied''"
    by code_simp
  show ?thesis
    using failed_save_turns_INFO_into_WARN [OF a b] a b by (simp add: WARN_def)
qed

lemma logMessage_summary:
  "let opts = optionsOf options;
       r = logMessage l level message options clk s;
       (shouldSave, path, err) = checkSaveLogOption (fileLogSettingOf l opts);
       failure = (if shouldSave then fst (saveToFile (recordOf level opts clk message) path s)
                  else None);
       status = (case failure of
                   Some e \<Rightarrow> [''Error: '' @ e]
                 | None \<Rightarrow> if shouldSave then [''Log saved!'']
                           else (case err of Some e \<Rightarrow> [''Error: '' @ e] | None \<Rightarrow> []))
   in Suffix (spinnerOut r) = Join (displayParts level opts clk message) '' | ''
      \<and> jsonerOut r = recordOf (if level = INFO \<and> failure \<noteq> None then WARN else level) opts clk message
      \<and> logPartsOut r
          = displayParts (if level = INFO \<and> failure \<noteq> None then WARN else level) opts clk message
            @ status
      \<and> FinalMSG (spinnerOut r)
          = Format clk (closingTime clk) @ '' '' @ (if failure = None then checkMark else ''x'')
            @ Join (logPartsOut r) '' | '' @ [newline]"
proof (cases "checkSaveLogOption (fileLogSettingOf l (optionsOf options))")
  case (fields shouldSave path err)
  show ?thesis
  proof (cases shouldSave)
    case False
    with fields logMessage_not_saving [of l options path err level message clk s]
    show ?thesis by (simp add: Let_def)
  next
    case True
    with fields have c: "checkSaveLogOption (fileLogSettingOf l (optionsOf options)) = (True, path, err)"
      by simp
    show ?thesis
    proof (cases "saveToFile (recordOf level (optionsOf options) clk message) path s")
      case (Pair f s')
      show ?thesis
      proof (cases f)
        case None
        with Pair c True logMessage_saved [OF c, of level clk message s s']
        show ?thesis by (simp add: Let_def)
      next
        case (Some e)
        with Pair c True logMessage_failed [OF c, of level clk message s e s']
        show ?thesis by (simp add: Let_def)
      qed
    qed
  qed
qed

lemma displayParts_ends:
  "hd (displayParts level opts clk message) = '' ['' @ level @ '']''
   \<and> last (displayParts level opts clk message) = message"
  by (simp add: displayParts_def)

lemma logMessage_keeps_level:
  assumes "level \<noteq> INFO"
  shows "jsonerOut (logMessage l level message options clk s)
           = recordOf level (optionsOf options) clk message
       \<and> take (length (displayParts level (optionsOf options) clk message))
            (logPartsOut (logMessage l level message options clk s))
           = displayParts level (optionsOf options) clk message
       \<and> (FinalMSG (spinnerOut (logMessage l level message options clk s))
            = Format clk (closingTime clk) @ '' '' @ checkMark
              @ Join (logPartsOut (logMessage l level message options clk s)) '' | '' @ [newline]
          \<or> FinalMSG (spinnerOut (logMessage l level message options clk s))
            = Format clk (closingTime clk) @ '' x''
              @ Join (logPartsOut (logMessage l level message options clk s)) '' | '' @ [newline])"
  using logMessage_summary [of options l level message clk s] assms
  by (auto simp: Let_def split: prod.splits if_splits)

text \<open>
  Claim C7. \<open>Fatal\<close> logs the message at level FATAL and then ends the process with exit
  status 1; \<open>Panic\<close> logs it at level PANIC and then panics with exactly the message. Logged
  means: the record holds the level and the message, the parts of the line start with the
  bracketed level and hold the message, and the final line is the closing time, a marker and
  those parts joined. A function that has deferred a \<open>recover\<close> receives the message of the
  panic and returns, while an exit passes through it. All of this holds for every setting
  and every file system, so whatever becomes of the append.
\<close>
theorem Fatal_exits_Panic_panics:
  "fst (Fatal l message options clk s) = Exited 1
   \<and> Level (jsonerOut (snd (Fatal l message options clk s))) = ''FATAL''
   \<and> Message (jsonerOut (snd (Fatal l message options clk s))) = message
   \<and> hd (logPartsOut (snd (Fatal l message options clk s))) = '' [FATAL]''
   \<and> message \<in> set (logPartsOut (snd (Fatal l message options clk s)))
   \<and> (FinalMSG (spinnerOut (snd (Fatal l message options clk s)))
        = Format clk (closingTime clk) @ '' '' @ checkMark
          @ Join (logPartsOut (snd (Fatal l message options clk s))) '' | '' @ [newline]
      \<or> FinalMSG (spinnerOut (snd (Fatal l message options clk s)))
        = Format clk (closingTime clk) @ '' x''
          @ Join (logPartsOut (snd (Fatal l message options clk s))) '' | '' @ [newline])
   \<and> fst (Panic l message options clk s) = Panicked message
   \<and> Level (jsonerOut (snd (Panic l message options clk s))) = ''PANIC''
   \<and> Message (jsonerOut (snd (Panic l message options clk s))) = message
   \<and> hd (logPartsOut (snd (Panic l message options clk s))) = '' [PANIC]''
   \<and> message \<in> set (logPartsOut (snd (Panic l message options clk s)))
   \<and> (FinalMSG (spinnerOut (snd (Panic l message options clk s)))
        = Format clk (closingTime clk) @ '' '' @ checkMark
          @ Join (logPartsOut (snd (Panic l message options clk s))) '' | '' @ [newline]
      \<or> FinalMSG (spinnerOut (snd (Panic l message options clk s)))
        = Format clk (closingTime clk) @ '' x''
          @ Join (logPartsOut (snd (Panic l message options clk s))) '' | '' @ [newline])
   \<and> recovering handler (Panic l message options clk s)
       = (Returned, handler message (snd (Panic l message options clk s)))
   \<and> recovering handler (Fatal l message options clk s) = Fatal l message options clk s"
proof -
  have parts: "hd ps = '' ['' @ level @ '']'' \<and> message \<in> set ps"
    if "take (length (displayParts level opts clk message)) ps = displayParts level opts clk message"
    for ps level opts
  proof -
    let ?d = "displayParts level opts clk message"
    have ne: "?d \<noteq> []" by (simp add: displayParts_def)
    have "ps = ?d @ drop (length ?d) ps" using that append_take_drop_id [of "length ?d" ps] by simp
    then obtain r where ps: "ps = ?d @ r" ..
    have "last ?d \<in> set ?d" using ne by (rule last_in_set)
    then have "message \<in> set ?d" using displayParts_ends [of level opts clk message] by simp
    then show ?thesis using ps ne displayParts_ends [of level opts clk message] by auto
  qed
  have f: "FATAL \<noteq> INFO" by (simp add: FATAL_def INFO_def)
  have p: "PANIC \<noteq> INFO" by (simp add: PANIC_def INFO_def)
  note F = logMessage_keeps_level [OF f, of l message options clk s]
  note P = logMessage_keeps_level [OF p, of l message options clk s]
  from F have F1: "hd (logPartsOut (logMessage l FATAL message options clk s)) = '' [FATAL]''
      \<and> message \<in> set (logPartsOut (logMessage l FATAL message options clk s))"
    using parts [of FATAL "optionsOf options"] by (simp add: FATAL_def)
  from P have P1: "hd (logPartsOut (logMessage l PANIC message options clk s)) = '' [PANIC]''
      \<and> message \<in> set (logPartsOut (logMessage l PANIC message options clk s))"
    using parts [of PANIC "optionsOf options"] by (simp add: PANIC_def)
  have F2: "Level (jsonerOut (logMessage l FATAL message options clk s)) = ''FATAL''
     \<and> Message (jsonerOut (logMessage l FATAL message options clk s)) = message"
    using F by (simp add: recordOf_def FATAL_def)
  have P2: "Level (jsonerOut (logMessage l PANIC message options clk s)) = ''PANIC''
     \<and> Message (jsonerOut (logMessage l PANIC message options clk s)) = message"
    using P by (simp add: recordOf_def PANIC_def)
  show ?thesis
    unfolding Fatal_def Panic_def recovering_def fst_conv snd_conv
    using F1 P1 F2 P2 F P by simp
qed

theorem Fatal_exits_Panic_panics_witness:
  "fst (Fatal New ''Fatal with a sink that fails''
          [\<lparr>StartTime = 0, Process = [], User = [], FileLog = String ''/invalid/path/test.json''\<rparr>]
          exampleClock readOnlyRoot) = Exited 1
   \<and> FinalMSG (spinnerOut (snd (Fatal New ''Fatal with a sink that fails''
          [\<lparr>StartTime = 0, Process = [], User = [], FileLog = String ''/invalid/path/test.json''\<rparr>]
          exampleClock readOnlyRoot)))
       = ''2024-01-02 03:04:05 x [FATAL] | Fatal with a sink that fails | Error: directory creation failed, mkdir /invalid: permission denied''
         @ [newline]
   \<and> fst (Panic New ''Test 9: Panic test with options''
          [\<lparr>StartTime = 0, Process = ''PanicProcess'', User = ''TestUser'',
            FileLog = String ''./logs/panic_test.json''\<rparr>] exampleClock quietHome)
       = Panicked ''Test 9: Panic test with options''
   \<and> FinalMSG (spinnerOut (snd (Panic New ''Test 9: Panic test with options''
          [\<lparr>StartTime = 0, Process = ''PanicProcess'', User = ''TestUser'',
            FileLog = String ''./logs/panic_test.json''\<rparr>] exampleClock quietHome)))
       = ''2024-01-02 03:04:05 '' @ checkMark
         @ '' [PANIC] | PanicProcess | TestUser | Test 9: Panic test with options | Log saved!''
         @ [newline]
   \<and> fst (recovering
        (\<lambda>r out. snd (Info New ''Recovered from panic''
                         [\<lparr>StartTime = 0, Process = ''PanicRecovery'', User = [],
                           FileLog = String ''./logs/recovery.json''\<rparr>] exampleClock (fsOut out)))
        (Panic New ''Test 9: Panic test with options''
          [\<lparr>StartTime = 0, Process = ''PanicProcess'', User = ''TestUser'',
            FileLog = String ''./logs/panic_test.json''\<rparr>] exampleClock quietHome)) = Returned
   \<and> FinalMSG (spinnerOut (snd (recovering
        (\<lambda>r out. snd (Info New ''Recovered from panic''
                         [\<lparr>StartTime = 0, Process = ''PanicRecovery'', User = [],
                           FileLog = String ''./logs/recovery.json''\<rparr>] exampleClock (fsOut out)))
        (Panic New ''Test 9: Panic test with options''
          [\<lparr>StartTime = 0, Process = ''PanicProcess'', User = ''TestUser'',
            FileLog = String ''./logs/panic_test.json''\<rparr>] exampleClock quietHome))))
       = ''2024-01-02 03:04:05 '' @ checkMark
         @ '' [INFO] | PanicRecovery | Recovered from panic | Log saved!'' @ [newline]"
proof -
  let ?fo = "[\<lparr>StartTime = 0, Process = [], User = [], FileLog = String ''/invalid/path/test.json''\<rparr>]"
  let ?po = "[\<lparr>StartTime = 0, Process = ''PanicProcess'', User = ''TestUser'',
            FileLog = String ''./logs/panic_test.json''\<rparr>]"
  let ?h = "\<lambda>(r :: string) out. snd (Info New ''Recovered from panic''
                         [\<lparr>StartTime = 0, Process = ''PanicRecovery'', User = [],
                           FileLog = String ''./logs/recovery.json''\<rparr>] exampleClock (fsOut out))"
  have a: "FinalMSG (spinnerOut (snd (Fatal New ''Fatal with a sink that fails'' ?fo exampleClock readOnlyRoot)))
       = ''2024-01-02 03:04:05 x [FATAL] | Fatal with a sink that fails | Error: directory creation failed, mkdir /invalid: permission denied''
         @ [newline]"
    by code_simp
  have b: "FinalMSG (spinnerOut (snd (Panic New ''Test 9: Panic test with options'' ?po
             exampleClock quietHome)))
       = ''2024-01-02 03:04:05 '' @ checkMark
         @ '' [PANIC] | PanicProcess | TestUser | Test 9: Panic test with options | Log saved!''
         @ [newline]"
    by code_simp
  have c: "FinalMSG (spinnerOut (?h ''Test 9: Panic test with options''
             (snd (Panic New ''Test 9: Panic test with options'' ?po exampleClock quietHome))))
       = ''2024-01-02 03:04:05 '' @ checkMark
         @ '' [INFO] | PanicRecovery | Recovered from panic | Log saved!'' @ [newline]"
    by code_simp
  note f = Fatal_exits_Panic_panics [of New "''Fatal with a sink that fails''" ?fo exampleClock readOnlyRoot ?h]
  note p = Fatal_exits_Panic_panics [of New "''Test 9: Panic test with options''" ?po exampleClock
      quietHome ?h]
  have r: "recovering ?h (Panic New ''Test 9: Panic test with options'' ?po exampleClock quietHome)
      = (Returned, ?h ''Test 9: Panic test with options''
           (snd (Panic New ''Test 9: Panic test with options'' ?po exampleClock quietHome)))"
    using p by blast
  have 1: "fst (Fatal New ''Fatal with a sink that fails'' ?fo exampleClock readOnlyRoot) = Exited 1"
    using f by blast
  have 2: "fst (Panic New ''Test 9: Panic test with options'' ?po exampleClock quietHome)
       = Panicked ''Test 9: Panic test with options''"
    using p by blast
  show ?thesis unfolding r fst_conv snd_conv using 1 2 a b c by blast
qed

lemma Milliseconds_nonneg: "0 \<le> d \<Longrightarrow> 0 \<le> Milliseconds d"
  by (simp add: Milliseconds_def)

lemma Sub_nonneg: "u \<le> t \<Longrightarrow> 0 \<le> Sub t u"
  by (simp add: Sub_def maxDuration_def minDuration_def)

text \<open>
  Claim C2, as stated, fails: after a successful save the line that stays on the terminal
  ends with \<open>Log saved!\<close>, not with the message.
\<close>
theorem message_not_last_after_save:
  "logPartsOut (logMessage New INFO ''hello'' [zeroOptions\<lparr>LogOptions.FileLog := Bool True\<rparr>]
                  exampleClock readOnlyRoot)
     = ['' [INFO]'', ''hello'', ''Log saved!'']
   \<and> FinalMSG (spinnerOut (logMessage New INFO ''hello''
                   [zeroOptions\<lparr>LogOptions.FileLog := Bool True\<rparr>] exampleClock readOnlyRoot))
     = ''2024-01-02 03:04:05 '' @ checkMark @ '' [INFO] | hello | Log saved!'' @ [newline]"
  by code_simp

text \<open>
  Claim C2, amended. The parts built by the formatting are, in order, the bracketed level,
  the process if not empty, the duration if the start time is not zero, the user if not
  empty, and the message; joined with \<open>" | "\<close> they are the spinner's suffix. The final
  line is the closing time, a space, a marker (the check mark, or \<open>x\<close> after a failed
  save) and the same parts joined, with \<open>WARN\<close> for \<open>INFO\<close> after a failed save, followed by
  one status part when there is one: \<open>Log saved!\<close> after a save, the error text after a
  failed save or for an invalid setting. The message is the last part exactly when there is
  no status part.
\<close>
theorem display_line_parts:
  "(let opts = optionsOf options;
        r = logMessage l level message options clk s;
        (shouldSave, path, err) = checkSaveLogOption (fileLogSettingOf l opts);
        failure = (if shouldSave then fst (saveToFile (recordOf level opts clk message) path s)
                   else None);
        status = (case failure of
                    Some e \<Rightarrow> [''Error: '' @ e]
                  | None \<Rightarrow> if shouldSave then [''Log saved!'']
                            else (case err of Some e \<Rightarrow> [''Error: '' @ e] | None \<Rightarrow> []))
    in Suffix (spinnerOut r) = Join (displayParts level opts clk message) '' | ''
       \<and> logPartsOut r
           = displayParts (if level = INFO \<and> failure \<noteq> None then WARN else level) opts clk message
             @ status
       \<and> FinalMSG (spinnerOut r)
           = Format clk (closingTime clk) @ '' '' @ (if failure = None then checkMark else ''x'')
             @ Join (logPartsOut r) '' | '' @ [newline])
   \<and> displayParts lv (optionsOf options) clk message
       = ['' ['' @ lv @ '']'']
         @ (if LogOptions.Process (optionsOf options) = [] then []
            else [LogOptions.Process (optionsOf options)])
         @ (if IsZero (StartTime (optionsOf options)) then []
            else [itoa (Milliseconds (Sub (currentTime clk) (StartTime (optionsOf options))))
                  @ '' ms''])
         @ (if LogOptions.User (optionsOf options) = [] then []
            else [LogOptions.User (optionsOf options)])
         @ [message]"
proof (rule conjI)
  show "let opts = optionsOf options;
        r = logMessage l level message options clk s;
        (shouldSave, path, err) = checkSaveLogOption (fileLogSettingOf l opts);
        failure = (if shouldSave then fst (saveToFile (recordOf level opts clk message) path s)
                   else None);
        status = (case failure of
                    Some e \<Rightarrow> [''Error: '' @ e]
                  | None \<Rightarrow> if shouldSave then [''Log saved!'']
                            else (case err of Some e \<Rightarrow> [''Error: '' @ e] | None \<Rightarrow> []))
    in Suffix (spinnerOut r) = Join (displayParts level opts clk message) '' | ''
       \<and> logPartsOut r
           = displayParts (if level = INFO \<and> failure \<noteq> None then WARN else level) opts clk message
             @ status
       \<and> FinalMSG (spinnerOut r)
           = Format clk (closingTime clk) @ '' '' @ (if failure = None then checkMark else ''x'')
             @ Join (logPartsOut r) '' | '' @ [newline]"
  proof (cases "checkSaveLogOption (fileLogSettingOf l (optionsOf options))")
    case (fields shouldSave path err)
    show ?thesis
    proof (cases shouldSave)
      case False
      with fields logMessage_not_saving [of l options path err level message clk s]
      show ?thesis by (simp add: Let_def)
    next
      case True
      with fields
      have c: "checkSaveLogOption (fileLogSettingOf l (optionsOf options)) = (True, path, err)"
        by simp
      show ?thesis
      proof (cases "saveToFile (recordOf level (optionsOf options) clk message) path s")
        case (Pair f s')
        show ?thesis
        proof (cases f)
          case None
          with Pair c True logMessage_saved [OF c, of level clk message s s']
          show ?thesis by (simp add: Let_def)
        next
          case (Some e)
          with Pair c True logMessage_failed [OF c, of level clk message s e s']
          show ?thesis by (simp add: Let_def)
        qed
      qed
    qed
  qed
next
  show "displayParts lv (optionsOf options) clk message
       = ['' ['' @ lv @ '']'']
         @ (if LogOptions.Process (optionsOf options) = [] then []
            else [LogOptions.Process (optionsOf options)])
         @ (if IsZero (StartTime (optionsOf options)) then []
            else [itoa (Milliseconds (Sub (currentTime clk) (StartTime (optionsOf options))))
                  @ '' ms''])
         @ (if LogOptions.User (optionsOf options) = [] then []
            else [LogOptions.User (optionsOf options)])
         @ [message]"
    by (simp add: displayParts_def durationText_def)
qed

text \<open>
  Claim C8, as stated, fails: the duration is taken from the clock reading \<open>currentTime\<close>,
  not from the later \<open>closingTime\<close>; the two may fall into different milliseconds.
\<close>
theorem duration_not_from_closingTime:
  "Duration (jsonerOut (logMessage New INFO ''done'' [zeroOptions\<lparr>StartTime := 1000000000\<rparr>]
                          exampleClock readOnlyRoot)) = ''250 ms''
   \<and> itoa (Milliseconds (closingTime exampleClock - 1000000000)) @ '' ms'' = ''251 ms''"
  by code_simp

text \<open>
  Claim C8, amended. With a non-zero start time the duration field, which is also one of the
  parts of the line, is \<open>"<N> ms"\<close> where \<open>N\<close> is the whole milliseconds, truncated towards
  zero, of \<open>currentTime - StartTime\<close> as a 64-bit duration (capped at the largest and
  smallest duration); \<open>N\<close> is not negative when the start time is not after
  \<open>currentTime\<close>, and is the quotient of the difference by \<open>1000000\<close> when the difference is
  within range.
\<close>
theorem duration_from_currentTime:
  assumes "\<not> IsZero (StartTime (optionsOf options))"
  shows "Duration (jsonerOut (logMessage l level message options clk s))
           = itoa (Milliseconds (Sub (currentTime clk) (StartTime (optionsOf options)))) @ '' ms''
       \<and> Duration (jsonerOut (logMessage l level message options clk s))
           \<in> set (logPartsOut (logMessage l level message options clk s))
       \<and> (StartTime (optionsOf options) \<le> currentTime clk
            \<longrightarrow> 0 \<le> Milliseconds (Sub (currentTime clk) (StartTime (optionsOf options))))
       \<and> (0 \<le> currentTime clk - StartTime (optionsOf options)
            \<and> currentTime clk - StartTime (optionsOf options) \<le> maxDuration
            \<longrightarrow> Milliseconds (Sub (currentTime clk) (StartTime (optionsOf options)))
                 = (currentTime clk - StartTime (optionsOf options)) div 1000000)"
proof -
  have "Duration (jsonerOut (logMessage l level message options clk s))
           = durationText clk (optionsOf options)
      \<and> durationText clk (optionsOf options)
           \<in> set (logPartsOut (logMessage l level message options clk s))"
    using logMessage_summary [of options l level message clk s] assms
    by (simp add: Let_def recordOf_def displayParts_def split: prod.splits)
  moreover have "0 \<le> Milliseconds (Sub (currentTime clk) (StartTime (optionsOf options)))"
    if "StartTime (optionsOf options) \<le> currentTime clk"
    using that by (intro Milliseconds_nonneg Sub_nonneg)
  moreover have "Milliseconds (Sub (currentTime clk) (StartTime (optionsOf options)))
                 = (currentTime clk - StartTime (optionsOf options)) div 1000000"
    if "0 \<le> currentTime clk - StartTime (optionsOf options)"
      "currentTime clk - StartTime (optionsOf options) \<le> maxDuration"
    using that by (simp add: Sub_def Milliseconds_def maxDuration_def minDuration_def)
  ultimately show ?thesis by (simp add: durationText_def)
qed

theorem duration_from_currentTime_witness:
  "\<not> IsZero (StartTime (optionsOf [zeroOptions\<lparr>StartTime := 1000000000\<rparr>]))
   \<and> Duration (jsonerOut (logMessage New WARN ''slow'' [zeroOptions\<lparr>StartTime := 1000000000\<rparr>]
                            exampleClock readOnlyRoot)) = ''250 ms''
   \<and> Duration (jsonerOut (logMessage New WARN ''slow'' [zeroOptions\<lparr>StartTime := 1000000000\<rparr>]
                            exampleClock readOnlyRoot))
       \<in> set (logPartsOut (logMessage New WARN ''slow''
                            [zeroOptions\<lparr>StartTime := 1000000000\<rparr>] exampleClock readOnlyRoot))
   \<and> StartTime (optionsOf [zeroOptions\<lparr>StartTime := 1000000000\<rparr>]) \<le> currentTime exampleClock
   \<and> 0 \<le> Milliseconds (Sub (currentTime exampleClock)
                            (StartTime (optionsOf [zeroOptions\<lparr>StartTime := 1000000000\<rparr>])))"
proof -
  have a: "\<not> IsZero (StartTime (optionsOf [zeroOptions\<lparr>StartTime := 1000000000\<rparr>]))"
    by code_simp
  have b: "itoa (Milliseconds (Sub (currentTime exampleClock)
              (StartTime (optionsOf [zeroOptions\<lparr>StartTime := 1000000000\<rparr>])))) @ '' ms'' = ''250 ms''"
    by code_simp
  have c: "StartTime (optionsOf [zeroOptions\<lparr>StartTime := 1000000000\<rparr>]) \<le> currentTime exampleClock"
    by code_simp
  from duration_from_currentTime [OF a, of New WARN "''slow''" exampleClock readOnlyRoot]
  show ?thesis
    unfolding b using a c by blast
qed

text \<open>
  Claim C5. \<open>Info\<close> and \<open>Warn\<close> return to the caller whatever \<open>saveToFile\<close> reports. When
  it reports an error, the final line still holds every part of the message line, and the
  error shows as one more part, \<open>Error:\<close> followed by its text.
\<close>
theorem sink_failure_stays_in_display_line:
  assumes "checkSaveLogOption (fileLogSettingOf l (optionsOf options)) = (True, path, None)"
    and "fst (saveToFile (recordOf INFO (optionsOf options) clk message) path s) = Some e1"
    and "fst (saveToFile (recordOf WARN (optionsOf options) clk message) path s) = Some e2"
  shows "fst (Info l message options clk s) = Returned
       \<and> FinalMSG (spinnerOut (snd (Info l message options clk s)))
           = Format clk (closingTime clk) @ '' x''
             @ Join (displayParts WARN (optionsOf options) clk message @ [''Error: '' @ e1]) '' | ''
             @ [newline]
       \<and> fst (Warn l message options clk s) = Returned
       \<and> FinalMSG (spinnerOut (snd (Warn l message options clk s)))
           = Format clk (closingTime clk) @ '' x''
             @ Join (displayParts WARN (optionsOf options) clk message @ [''Error: '' @ e2]) '' | ''
             @ [newline]"
proof -
  obtain s1 where 1: "saveToFile (recordOf INFO (optionsOf options) clk message) path s = (Some e1, s1)"
    using assms(2) by (cases "saveToFile (recordOf INFO (optionsOf options) clk message) path s") auto
  obtain s2 where 2: "saveToFile (recordOf WARN (optionsOf options) clk message) path s = (Some e2, s2)"
    using assms(3) by (cases "saveToFile (recordOf WARN (optionsOf options) clk message) path s") auto
  show ?thesis
    using logMessage_failed [OF assms(1) 1] logMessage_failed [OF assms(1) 2]
    by (simp add: Info_def Warn_def)
qed

theorem sink_failure_stays_in_display_line_witness:
  "checkSaveLogOption (fileLogSettingOf New (optionsOf [zeroOptions\<lparr>LogOptions.FileLog := String ''/invalid/path/test.json''\<rparr>]))
     = (True, ''/invalid/path/test.json'', None)
   \<and> fst (saveToFile (recordOf INFO (optionsOf [zeroOptions\<lparr>LogOptions.FileLog := String ''/invalid/path/test.json''\<rparr>]) exampleClock ''Test 6'')
        ''/invalid/path/test.json'' readOnlyRoot)
     = Some ''directory creation failed, mkdir /invalid: permission denied''
   \<and> fst (saveToFile (recordOf WARN (optionsOf [zeroOptions\<lparr>LogOptions.FileLog := String ''/invalid/path/test.json''\<rparr>]) exampleClock ''Test 6'')
        ''/invalid/path/test.json'' readOnlyRoot)
     = Some ''directory creation failed, mkdir /invalid: permission denied''
   \<and> fst (Info New ''Test 6'' [zeroOptions\<lparr>LogOptions.FileLog := String ''/invalid/path/test.json''\<rparr>] exampleClock readOnlyRoot) = Returned
   \<and> FinalMSG (spinnerOut (snd (Info New ''Test 6'' [zeroOptions\<lparr>LogOptions.FileLog := String ''/invalid/path/test.json''\<rparr>] exampleClock readOnlyRoot)))
      = ''2024-01-02 03:04:05 x [WARN] | Test 6 | Error: directory creation failed, mkdir /invalid: permission denied'' @ [newline]"
proof -
  have a: "checkSaveLogOption (fileLogSettingOf New (optionsOf [zeroOptions\<lparr>LogOptions.FileLog := String ''/invalid/path/test.json''\<rparr>]))
     = (True, ''/invalid/path/test.json'', None)"
    by code_simp
  have b: "fst (saveToFile (recordOf INFO (optionsOf [zeroOptions\<lparr>LogOptions.FileLog := String ''/invalid/path/test.json''\<rparr>]) exampleClock ''Test 6'')
        ''/invalid/path/test.json'' readOnlyRoot)
     = Some ''directory creation failed, mkdir /invalid: permission denied''"
    by code_simp
  have c: "fst (saveToFile (recordOf WARN (optionsOf [zeroOptions\<lparr>LogOptions.FileLog := String ''/invalid/path/test.json''\<rparr>]) exampleClock ''Test 6'')
        ''/invalid/path/test.json'' readOnlyRoot)
     = Some ''directory creation failed, mkdir /invalid: permission denied''"
    by code_simp
  have d: "Format exampleClock (closingTime exampleClock) @ '' x''
             @ Join (displayParts WARN (optionsOf [zeroOptions\<lparr>LogOptions.FileLog := String ''/invalid/path/test.json''\<rparr>]) exampleClock ''Test 6''
                 @ [''Error: '' @ ''directory creation failed, mkdir /invalid: permission denied'']) '' | ''
             @ [newline]
       = ''2024-01-02 03:04:05 x [WARN] | Test 6 | Error: directory creation failed, mkdir /invalid: permission denied'' @ [newline]"
    by code_simp
  show ?thesis
    using sink_failure_stays_in_display_line [OF a b c] a b c d by simp
qed

text \<open>
  Claim C10. When the setting in force is neither a \<open>bool\<close> nor a non-empty string,
  \<open>checkSaveLogOption\<close> answers that nothing is to be saved, the file system is left as it
  was, the call returns, and the final line holds the parts of the message; unless the
  setting is the empty string, the error naming the setting's type is appended as a last
  part.
\<close>
theorem invalid_setting_writes_nothing:
  assumes "fileLogSettingOf l (optionsOf options) = Nil
           \<or> fileLogSettingOf l (optionsOf options) = Other t
           \<or> fileLogSettingOf l (optionsOf options) = String []"
  shows "fst (checkSaveLogOption (fileLogSettingOf l (optionsOf options))) = False
       \<and> fsOut (logMessage l level message options clk s) = s
       \<and> logPartsOut (logMessage l level message options clk s)
           = displayParts level (optionsOf options) clk message
             @ (if fileLogSettingOf l (optionsOf options) = String [] then []
                else [''Error: log will not be saved, invalid file log setting type: ''
                      @ typeName (fileLogSettingOf l (optionsOf options))
                      @ '', expected bool or string''])
       \<and> FinalMSG (spinnerOut (logMessage l level message options clk s))
           = Format clk (closingTime clk) @ '' '' @ checkMark
             @ Join (logPartsOut (logMessage l level message options clk s)) '' | '' @ [newline]
       \<and> fst (Info l message options clk s) = Returned"
proof (cases "fileLogSettingOf l (optionsOf options)")
  case Nil
  then show ?thesis
    using logMessage_not_saving [of l options "[]" "Some (''log will not be saved, invalid file log setting type: '' @ typeName Nil @ '', expected bool or string'')" level message clk s]
    by (simp add: Info_def)
next
  case (Bool b)
  then show ?thesis using assms by simp
next
  case (String p)
  then have "p = []" using assms by simp
  with String show ?thesis
    using logMessage_not_saving [of l options "''./log.json''" None level message clk s]
    by (simp add: Info_def)
next
  case (Other u)
  then show ?thesis
    using logMessage_not_saving [of l options "[]" "Some (''log will not be saved, invalid file log setting type: '' @ typeName (Other u) @ '', expected bool or string'')" level message clk s]
    by (simp add: Info_def)
qed

theorem invalid_setting_writes_nothing_witness:
  "(fileLogSettingOf New (optionsOf [zeroOptions\<lparr>LogOptions.FileLog := Other ''int''\<rparr>]) = Nil
    \<or> fileLogSettingOf New (optionsOf [zeroOptions\<lparr>LogOptions.FileLog := Other ''int''\<rparr>])
        = Other ''int''
    \<or> fileLogSettingOf New (optionsOf [zeroOptions\<lparr>LogOptions.FileLog := Other ''int''\<rparr>])
        = String [])
   \<and> fsOut (logMessage New INFO ''hello'' [zeroOptions\<lparr>LogOptions.FileLog := Other ''int''\<rparr>]
               exampleClock readOnlyRoot) = readOnlyRoot
   \<and> logPartsOut (logMessage New INFO ''hello'' [zeroOptions\<lparr>LogOptions.FileLog := Other ''int''\<rparr>]
                     exampleClock readOnlyRoot)
      = ['' [INFO]'', ''hello'',
         ''Error: log will not be saved, invalid file log setting type: int, expected bool or string'']
   \<and> FinalMSG (spinnerOut (logMessage New INFO ''hello''
                    [zeroOptions\<lparr>LogOptions.FileLog := Other ''int''\<rparr>] exampleClock readOnlyRoot))
      = ''2024-01-02 03:04:05 '' @ checkMark
        @ '' [INFO] | hello | Error: log will not be saved, invalid file log setting type: int, expected bool or string''
        @ [newline]"
proof -
  have v: "fileLogSettingOf New (optionsOf [zeroOptions\<lparr>LogOptions.FileLog := Other ''int''\<rparr>])
           = Other ''int''"
    by code_simp
  have a: "fileLogSettingOf New (optionsOf [zeroOptions\<lparr>LogOptions.FileLog := Other ''int''\<rparr>]) = Nil
    \<or> fileLogSettingOf New (optionsOf [zeroOptions\<lparr>LogOptions.FileLog := Other ''int''\<rparr>])
        = Other ''int''
    \<or> fileLogSettingOf New (optionsOf [zeroOptions\<lparr>LogOptions.FileLog := Other ''int''\<rparr>])
        = String []"
    by (simp add: v)
  have d: "displayParts INFO (optionsOf [zeroOptions\<lparr>LogOptions.FileLog := Other ''int''\<rparr>])
             exampleClock ''hello'' = ['' [INFO]'', ''hello'']"
    by code_simp
  have t: "Format exampleClock (closingTime exampleClock) = ''2024-01-02 03:04:05''"
    by code_simp
  from invalid_setting_writes_nothing [OF a, of INFO "''hello''" exampleClock readOnlyRoot]
  show ?thesis
    by (simp add: v d t)
qed

section \<open>Reading the serialisation back\<close>

lemma lex_plain:
  "\<forall>c\<in>set cs. plain c \<Longrightarrow> lex (InString body) (cs @ rest) = lex (InString (body @ cs)) rest"
  by (induction cs arbitrary: body) (auto simp: plain_def)

lemma htmlSafe_plain: "htmlSafe b \<Longrightarrow> plain b"
  by (simp add: htmlSafe_def plain_def)

lemma isHex_hex: "isHex (hex n)"
proof -
  have "n mod 16 < length ''0123456789abcdef''" by simp
  then have "''0123456789abcdef'' ! (n mod 16) \<in> set ''0123456789abcdef''"
    by (rule nth_mem)
  then show ?thesis unfolding isHex_def hex_def by auto
qed

lemma lex_escapeByte:
  "lex (InString body) (escapeByte b @ rest) = lex (InString (body @ escapeByte b)) rest"
  using isHex_hex [of "byte b div 16"] isHex_hex [of "byte b mod 16"]
  by (simp add: escapeByte_def isHex_def bslash_def dquote_def)

lemma high_plain: "0x80 \<le> byte c \<Longrightarrow> plain c"
  by (auto simp: plain_def dquote_def bslash_def byte_def)

lemma runeSize_high:
  "runeSize s = Some n \<Longrightarrow> \<forall>c\<in>set (take n s). 0x80 \<le> byte c"
  by (auto simp: runeSize_def between_def split: list.splits if_splits)

lemma lex_chunk:
  assumes step: "\<And>body rest. lex (InString body) (chunk @ rest) = lex (InString (body @ chunk)) rest"
    and ih: "\<And>body. lex (InString body) (tail @ rest) = lex (InString (body @ tail)) rest"
  shows "lex (InString body) ((chunk @ tail) @ rest) = lex (InString (body @ chunk @ tail)) rest"
proof -
  have "lex (InString body) ((chunk @ tail) @ rest) = lex (InString body) (chunk @ (tail @ rest))"
    by simp
  also have "\<dots> = lex (InString (body @ chunk)) (tail @ rest)" by (rule step)
  also have "\<dots> = lex (InString ((body @ chunk) @ tail)) rest" by (rule ih)
  finally show ?thesis by simp
qed

lemma lex_replacement:
  "lex (InString body) ((bslash # ''ufffd'') @ rest) = lex (InString (body @ bslash # ''ufffd'')) rest"
  "lex (InString body) ((bslash # ''u2028'') @ rest) = lex (InString (body @ bslash # ''u2028'')) rest"
  "lex (InString body) ((bslash # ''u2029'') @ rest) = lex (InString (body @ bslash # ''u2029'')) rest"
  by (simp_all add: isHex_def bslash_def dquote_def)

lemma lex_stringBody:
  "lex (InString body) (stringBody v @ rest) = lex (InString (body @ stringBody v)) rest"
proof (induction v arbitrary: body rule: stringBody.induct)
  case 1
  then show ?case by simp
next
  case (2 b bs)
  show ?case
  proof (cases "byte b < 0x80")
    case True
    note ascii = this
    show ?thesis
    proof (cases "htmlSafe b")
      case True
      have eq: "stringBody (b # bs) = [b] @ stringBody bs" using ascii True by simp
      have "\<forall>c\<in>set [b]. plain c" using True by (simp add: htmlSafe_plain)
      then have "\<And>body rest. lex (InString body) ([b] @ rest) = lex (InString (body @ [b])) rest"
        by (rule lex_plain)
      then show ?thesis unfolding eq using 2(1) [OF ascii] by (rule lex_chunk)
    next
      case False
      have eq: "stringBody (b # bs) = escapeByte b @ stringBody bs" using ascii False by simp
      show ?thesis unfolding eq using lex_escapeByte 2(1) [OF ascii] by (rule lex_chunk)
    qed
  next
    case False
    note high = this
    show ?thesis
    proof (cases "runeSize (b # bs)")
      case None
      have eq: "stringBody (b # bs) = (bslash # ''ufffd'') @ stringBody bs"
        using high None by simp
      show ?thesis unfolding eq using lex_replacement(1) 2(2) [OF high None] by (rule lex_chunk)
    next
      case (Some n)
      have hp: "\<forall>c\<in>set (take n (b # bs)). plain c"
        using runeSize_high [OF Some] high_plain by blast
      have raw: "\<And>body rest. lex (InString body) (take n (b # bs) @ rest)
                   = lex (InString (body @ take n (b # bs))) rest"
        using hp by (rule lex_plain)
      consider (ls) "take n (b # bs) = [CHR 0xE2, CHR 0x80, CHR 0xA8]"
        | (ps) "take n (b # bs) \<noteq> [CHR 0xE2, CHR 0x80, CHR 0xA8]"
               "take n (b # bs) = [CHR 0xE2, CHR 0x80, CHR 0xA9]"
        | (other) "take n (b # bs) \<noteq> [CHR 0xE2, CHR 0x80, CHR 0xA8]"
               "take n (b # bs) \<noteq> [CHR 0xE2, CHR 0x80, CHR 0xA9]"
        by blast
      then show ?thesis
      proof cases
        case ls
        have eq: "stringBody (b # bs) = (bslash # ''u2028'') @ stringBody (drop (n - 1) bs)"
          using high Some ls by simp
        show ?thesis unfolding eq using lex_replacement(2) 2(3) [OF high Some] by (rule lex_chunk)
      next
        case ps
        have eq: "stringBody (b # bs) = (bslash # ''u2029'') @ stringBody (drop (n - 1) bs)"
          using high Some ps by simp
        show ?thesis unfolding eq using lex_replacement(3) 2(3) [OF high Some] by (rule lex_chunk)
      next
        case other
        have eq: "stringBody (b # bs) = take n (b # bs) @ stringBody (drop (n - 1) bs)"
          using high Some other by simp
        show ?thesis unfolding eq using raw 2(3) [OF high Some] by (rule lex_chunk)
      qed
    qed
  qed
qed

lemma lex_appendString:
  "lex Outside (appendString v @ rest) = map_option (Cons (Str (stringBody v))) (lex Outside rest)"
  using lex_stringBody [of "[]" v "dquote # rest"]
  by (simp add: appendString_def isSpace_def dquote_def newline_def)

lemma lex_space:
  "\<forall>c\<in>set ws. isSpace c \<Longrightarrow> lex Outside (ws @ rest) = lex Outside rest"
  by (induction ws) auto

lemma lex_punct:
  "lex Outside (CHR '','' # rest) = map_option (Cons Comma) (lex Outside rest)"
  "lex Outside (CHR '':'' # rest) = map_option (Cons Colon) (lex Outside rest)"
  "lex Outside (CHR ''{'' # rest) = map_option (Cons LBrace) (lex Outside rest)"
  "lex Outside (CHR ''}'' # rest) = map_option (Cons RBrace) (lex Outside rest)"
  "lex Outside (CHR ''['' # rest) = map_option (Cons LBracket) (lex Outside rest)"
  "lex Outside (CHR '']'' # rest) = map_option (Cons RBracket) (lex Outside rest)"
  "lex Outside (CHR '' '' # rest) = lex Outside rest"
  "lex Outside (newline # rest) = lex Outside rest"
  by (simp_all add: isSpace_def punct_def dquote_def newline_def)

lemma lex_member:
  "lex Outside (member kv @ rest)
     = map_option (\<lambda>ts. Str (fst (literal kv)) # Colon # Str (snd (literal kv)) # ts)
         (lex Outside rest)"
proof -
  have l: "fst (literal kv) = stringBody (fst kv)" "snd (literal kv) = stringBody (snd kv)"
    by (simp_all add: literal_def)
  have "lex Outside (member kv @ rest)
        = lex Outside (appendString (fst kv) @ (CHR '':'' # CHR '' '' # appendString (snd kv) @ rest))"
    by (simp add: member_def)
  also have "\<dots> = map_option (Cons (Str (stringBody (fst kv))))
                    (lex Outside (CHR '':'' # CHR '' '' # appendString (snd kv) @ rest))"
    by (rule lex_appendString)
  also have "lex Outside (CHR '':'' # CHR '' '' # appendString (snd kv) @ rest)
             = map_option (Cons Colon) (lex Outside (appendString (snd kv) @ rest))"
    by (simp only: lex_punct)
  also have "lex Outside (appendString (snd kv) @ rest)
             = map_option (Cons (Str (stringBody (snd kv)))) (lex Outside rest)"
    by (rule lex_appendString)
  finally show ?thesis by (simp add: option.map_comp comp_def l)
qed

lemma lex_members:
  assumes sp: "\<forall>c\<in>set ws. isSpace c"
  shows "lex Outside (Join (map member ms) (CHR '','' # ws) @ rest)
           = map_option (\<lambda>ts. memberTokens (map literal ms) @ ts) (lex Outside rest)"
proof (induction ms rule: memberTokens.induct)
  case 1
  then show ?case by (simp add: option.map_ident)
next
  case (2 kv)
  then show ?case by (simp add: lex_member)
next
  case (3 kv kv' ms)
  have "lex Outside (Join (map member (kv # kv' # ms)) (CHR '','' # ws) @ rest)
        = lex Outside (member kv @ (CHR '','' # ws @ (Join (map member (kv' # ms)) (CHR '','' # ws) @ rest)))"
    by simp
  also have "\<dots> = map_option (\<lambda>ts. Str (fst (literal kv)) # Colon # Str (snd (literal kv)) # ts)
        (lex Outside (CHR '','' # ws @ (Join (map member (kv' # ms)) (CHR '','' # ws) @ rest)))"
    by (rule lex_member)
  also have "lex Outside (CHR '','' # ws @ (Join (map member (kv' # ms)) (CHR '','' # ws) @ rest))
        = map_option (Cons Comma) (lex Outside (Join (map member (kv' # ms)) (CHR '','' # ws) @ rest))"
    using lex_space [OF sp] by (simp only: lex_punct)
  also have "lex Outside (Join (map member (kv' # ms)) (CHR '','' # ws) @ rest)
        = map_option (\<lambda>ts. memberTokens (map literal (kv' # ms)) @ ts) (lex Outside rest)"
    by (rule 3)
  finally show ?case by (simp add: option.map_comp comp_def)
qed

lemma lex_indented:
  assumes "\<forall>c\<in>set prefix. isSpace c" "\<forall>c\<in>set indent. isSpace c"
  shows "lex Outside (indented j prefix indent @ rest)
           = map_option (\<lambda>ts. LBrace # memberTokens (map literal (jsonFields j)) @ RBrace # ts)
               (lex Outside rest)"
proof -
  have ws: "\<forall>c\<in>set (newline # prefix @ indent). isSpace c"
    using assms by (auto simp: isSpace_def)
  have ws': "\<forall>c\<in>set (newline # prefix). isSpace c"
    using assms by (auto simp: isSpace_def)
  have "lex Outside (indented j prefix indent @ rest)
        = lex Outside (CHR ''{'' # (newline # prefix @ indent)
            @ (Join (map member (jsonFields j)) (CHR '','' # newline # prefix @ indent)
               @ ((newline # prefix) @ CHR ''}'' # rest)))"
    by (simp add: indented_def)
  also have "\<dots> = map_option (Cons LBrace) (lex Outside
            (Join (map member (jsonFields j)) (CHR '','' # newline # prefix @ indent)
               @ ((newline # prefix) @ CHR ''}'' # rest)))"
    using lex_space [OF ws] by (simp only: lex_punct)
  also have "lex Outside (Join (map member (jsonFields j)) (CHR '','' # newline # prefix @ indent)
               @ ((newline # prefix) @ CHR ''}'' # rest))
        = map_option (\<lambda>ts. memberTokens (map literal (jsonFields j)) @ ts)
            (lex Outside ((newline # prefix) @ CHR ''}'' # rest))"
    using ws by (rule lex_members)
  also have "lex Outside ((newline # prefix) @ CHR ''}'' # rest)
        = map_option (Cons RBrace) (lex Outside rest)"
    using lex_space [OF ws'] by (simp only: lex_punct)
  finally show ?thesis by (simp add: option.map_comp comp_def)
qed

lemma lex_end: "lex Outside [] = Some []" by simp

declare lex.simps [simp del]

lemma lex_objects:
  assumes sp: "\<forall>c\<in>set ws. isSpace c"
    and p: "\<forall>c\<in>set prefix. isSpace c" and i: "\<forall>c\<in>set indent. isSpace c"
  shows "lex Outside (Join (map (\<lambda>j. indented j prefix indent) js) (CHR '','' # ws) @ rest)
           = map_option (\<lambda>ts. objectTokens (map (\<lambda>j. map literal (jsonFields j)) js) @ ts)
               (lex Outside rest)"
proof (induction js rule: induct_list012)
  case 1
  then show ?case by (simp add: option.map_ident)
next
  case (2 j)
  then show ?case by (simp add: lex_indented [OF p i] option.map_comp comp_def)
next
  case (3 j j' js)
  have "lex Outside (Join (map (\<lambda>j. indented j prefix indent) (j # j' # js)) (CHR '','' # ws) @ rest)
        = lex Outside (indented j prefix indent
            @ (CHR '','' # ws @ (Join (map (\<lambda>j. indented j prefix indent) (j' # js)) (CHR '','' # ws) @ rest)))"
    by simp
  also have "\<dots> = map_option (\<lambda>ts. LBrace # memberTokens (map literal (jsonFields j)) @ RBrace # ts)
        (lex Outside (CHR '','' # ws @ (Join (map (\<lambda>j. indented j prefix indent) (j' # js)) (CHR '','' # ws) @ rest)))"
    using p i by (rule lex_indented)
  also have "lex Outside (CHR '','' # ws @ (Join (map (\<lambda>j. indented j prefix indent) (j' # js)) (CHR '','' # ws) @ rest))
        = map_option (Cons Comma)
            (lex Outside (Join (map (\<lambda>j. indented j prefix indent) (j' # js)) (CHR '','' # ws) @ rest))"
    using lex_space [OF sp] by (simp only: lex_punct)
  also have "lex Outside (Join (map (\<lambda>j. indented j prefix indent) (j' # js)) (CHR '','' # ws) @ rest)
        = map_option (\<lambda>ts. objectTokens (map (\<lambda>j. map literal (jsonFields j)) (j' # js)) @ ts)
            (lex Outside rest)"
    by (rule 3)
  finally show ?case by (simp add: option.map_comp comp_def)
qed

lemma lex_arrayText:
  assumes p: "\<forall>c\<in>set prefix. isSpace c" and i: "\<forall>c\<in>set indent. isSpace c"
  shows "lex Outside (arrayText (map (\<lambda>j. indented j prefix indent) js))
           = Some (LBracket # objectTokens (map (\<lambda>j. map literal (jsonFields j)) js) @ [RBracket])"
proof -
  have ws: "\<forall>c\<in>set (newline # ''  ''). isSpace c" by (simp add: isSpace_def)
  have "lex Outside (arrayText (map (\<lambda>j. indented j prefix indent) js))
        = lex Outside (CHR ''['' # (newline # ''  '')
            @ (Join (map (\<lambda>j. indented j prefix indent) js) (CHR '','' # newline # ''  '')
               @ [newline, CHR '']'']))"
    by (simp add: arrayText_def)
  also have "\<dots> = map_option (Cons LBracket)
        (lex Outside (Join (map (\<lambda>j. indented j prefix indent) js) (CHR '','' # newline # ''  '')
               @ [newline, CHR '']'']))"
    using lex_space [OF ws] by (simp only: lex_punct)
  also have "lex Outside (Join (map (\<lambda>j. indented j prefix indent) js) (CHR '','' # newline # ''  '')
               @ [newline, CHR '']''])
        = map_option (\<lambda>ts. objectTokens (map (\<lambda>j. map literal (jsonFields j)) js) @ ts)
            (lex Outside [newline, CHR '']''])"
    using ws p i by (rule lex_objects)
  also have "lex Outside [newline, CHR '']''] = Some [RBracket]"
    by (simp only: lex_punct lex_end option.map)
  finally show ?thesis by simp
qed

lemma parse_members:
  assumes "e = FirstKey \<or> e = NextKey" "ms \<noteq> []"
  shows "parse e objs acc (memberTokens ms @ RBrace # rest) = parse AfterObject (objs @ [acc @ ms]) [] rest"
  using assms
proof (induction ms arbitrary: e acc rule: memberTokens.induct)
  case 1
  then show ?case by simp
next
  case (2 kv)
  then show ?case by (auto simp: advance_def)
next
  case (3 kv kv' ms)
  have "parse e objs acc (memberTokens (kv # kv' # ms) @ RBrace # rest)
        = parse NextKey objs (acc @ [kv]) (memberTokens (kv' # ms) @ RBrace # rest)"
    using 3(2) by (auto simp: advance_def)
  also have "\<dots> = parse AfterObject (objs @ [(acc @ [kv]) @ kv' # ms]) [] rest"
    by (rule 3(1)) simp_all
  finally show ?case by simp
qed

lemma parse_object:
  assumes "e = FirstObject \<or> e = NextObject"
  shows "parse e objs acc (LBrace # memberTokens ms @ RBrace # rest) = parse AfterObject (objs @ [ms]) [] rest"
proof (cases "ms = []")
  case True
  then show ?thesis using assms by (auto simp: advance_def)
next
  case False
  have "parse e objs acc (LBrace # memberTokens ms @ RBrace # rest)
        = parse FirstKey objs [] (memberTokens ms @ RBrace # rest)"
    using assms by (auto simp: advance_def)
  also have "\<dots> = parse AfterObject (objs @ [[] @ ms]) [] rest"
    using False by (intro parse_members) simp_all
  finally show ?thesis by simp
qed

lemma parse_objects:
  assumes "e = FirstObject \<or> e = NextObject" "objs' \<noteq> []"
  shows "parse e objs acc (objectTokens objs' @ [RBracket]) = Some (objs @ objs')"
  using assms
proof (induction objs' arbitrary: e objs acc rule: objectTokens.induct)
  case 1
  then show ?case by simp
next
  case (2 ms)
  have "parse e objs acc (objectTokens [ms] @ [RBracket])
        = parse e objs acc (LBrace # memberTokens ms @ RBrace # [RBracket])"
    by simp
  also have "\<dots> = parse AfterObject (objs @ [ms]) [] [RBracket]"
    using 2(1) by (rule parse_object)
  finally show ?case by (simp add: advance_def)
next
  case (3 ms ms' rest)
  have "parse e objs acc (objectTokens (ms # ms' # rest) @ [RBracket])
        = parse e objs acc (LBrace # memberTokens ms @ RBrace # (Comma # objectTokens (ms' # rest) @ [RBracket]))"
    by simp
  also have "\<dots> = parse AfterObject (objs @ [ms]) [] (Comma # objectTokens (ms' # rest) @ [RBracket])"
    using 3(2) by (rule parse_object)
  also have "\<dots> = parse NextObject (objs @ [ms]) [] (objectTokens (ms' # rest) @ [RBracket])"
    by (simp add: advance_def)
  also have "\<dots> = Some ((objs @ [ms]) @ ms' # rest)"
    by (rule 3(1)) simp_all
  finally show ?case by simp
qed

lemma parse_array:
  "parse ArrayStart [] [] (LBracket # objectTokens objs @ [RBracket]) = Some objs"
proof (cases "objs = []")
  case True
  then show ?thesis by (simp add: advance_def)
next
  case False
  have "parse ArrayStart [] [] (LBracket # objectTokens objs @ [RBracket])
        = parse FirstObject [] [] (objectTokens objs @ [RBracket])"
    by (simp add: advance_def)
  also have "\<dots> = Some ([] @ objs)" using False by (intro parse_objects) simp_all
  finally show ?thesis by simp
qed

declare parse.simps [simp del]
declare stringBody.simps [simp del]

lemma stringBody_time: "stringBody ''time'' = ''time''" by code_simp
lemma stringBody_level: "stringBody ''level'' = ''level''" by code_simp
lemma stringBody_process: "stringBody ''process'' = ''process''" by code_simp
lemma stringBody_duration: "stringBody ''duration'' = ''duration''" by code_simp
lemma stringBody_user: "stringBody ''user'' = ''user''" by code_simp
lemma stringBody_message: "stringBody ''message'' = ''message''" by code_simp

lemmas stringBody_keys = stringBody_time stringBody_level stringBody_process stringBody_duration
  stringBody_user stringBody_message

lemma literal_jsonFields: "map literal (jsonFields j) = spelled j"
  by (simp add: jsonFields_def spelled_def literal_def stringBody_keys)

lemma parseArray_arrayText:
  assumes "\<forall>c\<in>set prefix. isSpace c" "\<forall>c\<in>set indent. isSpace c"
  shows "parseArray (arrayText (map (\<lambda>j. indented j prefix indent) js)) = Some (map spelled js)"
  by (simp add: parseArray_def lex_arrayText [OF assms] parse_array literal_jsonFields)

lemma parseObject_indented:
  assumes "\<forall>c\<in>set prefix. isSpace c" "\<forall>c\<in>set indent. isSpace c"
  shows "parseObject (indented j prefix indent) = Some (spelled j)"
proof -
  have "lex Outside (''['' @ indented j prefix indent @ '']'')
        = map_option (Cons LBracket) (lex Outside (indented j prefix indent @ '']''))"
    by (simp only: lex_punct append_Cons append_Nil)
  also have "lex Outside (indented j prefix indent @ '']'')
        = map_option (\<lambda>ts. LBrace # memberTokens (map literal (jsonFields j)) @ RBrace # ts)
            (lex Outside '']'')"
    using assms by (rule lex_indented)
  also have "lex Outside '']'' = Some [RBracket]" by (simp only: lex_punct lex_end option.map)
  finally have "lex Outside (''['' @ indented j prefix indent @ '']'')
        = Some (LBracket # objectTokens [spelled j] @ [RBracket])"
    by (simp add: literal_jsonFields)
  then show ?thesis
    unfolding parseObject_def parseArray_def by (simp only: parse_array option.case list.case)
qed

lemma durationText_not_empty: "durationText clk opts \<noteq> []"
  by (simp add: durationText_def)

lemma jsonerOut_recordOf:
  "jsonerOut (logMessage l level message options clk s) = recordOf level (optionsOf options) clk message
   \<or> jsonerOut (logMessage l level message options clk s) = recordOf WARN (optionsOf options) clk message"
proof (cases "checkSaveLogOption (fileLogSettingOf l (optionsOf options))")
  case (fields shouldSave path err)
  show ?thesis
  proof (cases shouldSave)
    case False
    with fields logMessage_not_saving [of l options path err level message clk s]
    show ?thesis by simp
  next
    case True
    with fields have c: "checkSaveLogOption (fileLogSettingOf l (optionsOf options)) = (True, path, err)"
      by simp
    show ?thesis
    proof (cases "saveToFile (recordOf level (optionsOf options) clk message) path s")
      case (Pair f s')
      show ?thesis
      proof (cases f)
        case None
        with Pair logMessage_saved [OF c, of level clk message s s'] show ?thesis by simp
      next
        case (Some e)
        with Pair logMessage_failed [OF c, of level clk message s e s'] show ?thesis by auto
      qed
    qed
  qed
qed

lemma spelled_recordOf:
  "spelled (recordOf lv opts clk message)
     = [(''time'', stringBody (Format clk (closingTime clk))), (''level'', stringBody lv)]
       @ (if LogOptions.Process opts = [] then []
          else [(''process'', stringBody (LogOptions.Process opts))])
       @ (if IsZero (StartTime opts) then []
          else [(''duration'',
                 stringBody (itoa (Milliseconds (Sub (currentTime clk) (StartTime opts))) @ '' ms''))])
       @ (if LogOptions.User opts = [] then []
          else [(''user'', stringBody (LogOptions.User opts))])
       @ [(''message'', stringBody message)]"
  by (simp add: spelled_def jsonFields_def recordOf_def durationText_not_empty)
     (simp add: durationText_def)

lemma record_of_call:
  "parseObject (indented (jsonerOut (logMessage l level message options clk s)) ''  '' ''  '')
     = Some (spelled (recordOf (Level (jsonerOut (logMessage l level message options clk s)))
                (optionsOf options) clk message))
   \<and> (Level (jsonerOut (logMessage l level message options clk s)) = level
      \<or> Level (jsonerOut (logMessage l level message options clk s)) = WARN)"
proof -
  have p: "parseObject (indented j ''  '' ''  '') = Some (spelled j)" for j
    by (rule parseObject_indented) (simp_all add: isSpace_def)
  from jsonerOut_recordOf [of l level message options clk s] show ?thesis
  proof
    assume a: "jsonerOut (logMessage l level message options clk s)
      = recordOf level (optionsOf options) clk message"
    have "Level (recordOf level (optionsOf options) clk message) = level" by (simp add: recordOf_def)
    then show ?thesis unfolding a by (simp add: p)
  next
    assume a: "jsonerOut (logMessage l level message options clk s)
      = recordOf WARN (optionsOf options) clk message"
    have "Level (recordOf WARN (optionsOf options) clk message) = WARN" by (simp add: recordOf_def)
    then show ?thesis unfolding a by (simp add: p)
  qed
qed

text \<open>
  Claim C3. The record that \<open>logMessage\<close> builds for a call with options serialises to
  an object that reads back as these members, in this order, all of them strings and none
  null: \<open>time\<close> and \<open>level\<close> (the level of the call, or \<open>WARN\<close>), then \<open>process\<close> exactly
  when the \<open>Process\<close> of the options is not empty, \<open>duration\<close> exactly when their
  \<open>StartTime\<close> is not zero, \<open>user\<close> exactly when their \<open>User\<close> is not empty, and
  \<open>message\<close>; each value is the literal of the source value. With all three empty, and
  for a call without options, the members are \<open>time\<close>, \<open>level\<close> and \<open>message\<close> alone.
\<close>
theorem record_fields_follow_the_options:
  "MarshalIndent (jsonerOut (logMessage l level message (opts # rest) clk s)) ''  '' ''  ''
     = Inr (indented (jsonerOut (logMessage l level message (opts # rest) clk s)) ''  '' ''  '')
   \<and> parseObject (indented (jsonerOut (logMessage l level message (opts # rest) clk s)) ''  '' ''  '')
     = Some ([(''time'', stringBody (Format clk (closingTime clk))),
              (''level'', stringBody (Level (jsonerOut (logMessage l level message (opts # rest) clk s))))]
             @ (if LogOptions.Process opts = [] then []
                else [(''process'', stringBody (LogOptions.Process opts))])
             @ (if IsZero (StartTime opts) then []
                else [(''duration'',
                       stringBody (itoa (Milliseconds (Sub (currentTime clk) (StartTime opts))) @ '' ms''))])
             @ (if LogOptions.User opts = [] then []
                else [(''user'', stringBody (LogOptions.User opts))])
             @ [(''message'', stringBody message)])
   \<and> (Level (jsonerOut (logMessage l level message (opts # rest) clk s)) = level
      \<or> Level (jsonerOut (logMessage l level message (opts # rest) clk s)) = WARN)
   \<and> parseObject (indented (jsonerOut (logMessage l level message
        (\<lparr>StartTime = 0, Process = [], User = [], FileLog = v\<rparr> # rest) clk s)) ''  '' ''  '')
     = Some [(''time'', stringBody (Format clk (closingTime clk))),
             (''level'', stringBody (Level (jsonerOut (logMessage l level message
                (\<lparr>StartTime = 0, Process = [], User = [], FileLog = v\<rparr> # rest) clk s)))),
             (''message'', stringBody message)]
   \<and> parseObject (indented (jsonerOut (logMessage l level message [] clk s)) ''  '' ''  '')
     = Some [(''time'', stringBody (Format clk (closingTime clk))),
             (''level'', stringBody (Level (jsonerOut (logMessage l level message [] clk s)))),
             (''message'', stringBody message)]"
proof -
  note a = record_of_call [of l level message "opts # rest" clk s]
  note b = record_of_call [of l level message
      "\<lparr>StartTime = 0, Process = [], User = [], FileLog = v\<rparr> # rest" clk s]
  note c = record_of_call [of l level message "[]" clk s]
  show ?thesis
    using a b c
    by (simp add: MarshalIndent_def optionsOf_simps spelled_recordOf zeroOptions_def IsZero_def)
qed

theorem record_fields_follow_the_options_witness:
  "parseObject (indented (jsonerOut (logMessage New INFO ''Test 5: Full features test''
      [\<lparr>StartTime = 1000000000, Process = ''MainProcess'', User = ''TestUser'',
        FileLog = String ''./logs/full_test.json''\<rparr>] exampleClock quietHome)) ''  '' ''  '')
     = Some [(''time'', ''2024-01-02 03:04:05''), (''level'', ''INFO''),
             (''process'', ''MainProcess''), (''duration'', ''250 ms''), (''user'', ''TestUser''),
             (''message'', ''Test 5: Full features test'')]
   \<and> parseObject (indented (jsonerOut (logMessage New INFO ''only a process''
      [\<lparr>StartTime = 0, Process = ''P'', User = [], FileLog = Nil\<rparr>] exampleClock quietHome)) ''  '' ''  '')
     = Some [(''time'', ''2024-01-02 03:04:05''), (''level'', ''INFO''), (''process'', ''P''),
             (''message'', ''only a process'')]"
proof -
  have l1: "Level (jsonerOut (logMessage New INFO ''Test 5: Full features test''
      [\<lparr>StartTime = 1000000000, Process = ''MainProcess'', User = ''TestUser'',
        FileLog = String ''./logs/full_test.json''\<rparr>] exampleClock quietHome)) = ''INFO''"
    by code_simp
  have l2: "Level (jsonerOut (logMessage New INFO ''only a process''
      [\<lparr>StartTime = 0, Process = ''P'', User = [], FileLog = Nil\<rparr>] exampleClock quietHome)) = ''INFO''"
    by code_simp
  have v: "stringBody (Format exampleClock (closingTime exampleClock)) = ''2024-01-02 03:04:05''"
    "stringBody ''INFO'' = ''INFO''" "stringBody ''MainProcess'' = ''MainProcess''"
    "stringBody ''TestUser'' = ''TestUser''" "stringBody ''P'' = ''P''"
    "stringBody ''Test 5: Full features test'' = ''Test 5: Full features test''"
    "stringBody ''only a process'' = ''only a process''"
    "stringBody (itoa (Milliseconds (Sub (currentTime exampleClock) 1000000000)) @ '' ms'') = ''250 ms''"
    by code_simp+
  have z: "\<not> IsZero (1000000000 :: int)" "IsZero (0 :: int)" by (simp_all add: IsZero_def)
  from record_fields_follow_the_options [of New INFO "''Test 5: Full features test''"
      "\<lparr>StartTime = 1000000000, Process = ''MainProcess'', User = ''TestUser'',
        FileLog = String ''./logs/full_test.json''\<rparr>" "[]" exampleClock quietHome]
    record_fields_follow_the_options [of New INFO "''only a process''"
      "\<lparr>StartTime = 0, Process = ''P'', User = [], FileLog = Nil\<rparr>" "[]" exampleClock quietHome]
  show ?thesis unfolding l1 l2 by (simp add: v z)
qed

section \<open>The log file\<close>

lemma dirsKept_refl: "dirsKept s s"
  by (simp add: dirsKept_def)

lemma dirsKept_trans: "dirsKept s s' \<Longrightarrow> dirsKept s' s'' \<Longrightarrow> dirsKept s s''"
  by (simp add: dirsKept_def)

lemma walk_dirsKept:
  "dirsKept s s' \<Longrightarrow> walk s cur cs = Inr l \<Longrightarrow> walk s' cur cs = Inr l"
proof (induction cs arbitrary: cur)
  case Nil
  then show ?case by simp
next
  case (Cons c cs)
  from Cons.prems(2) have d: "nodeAt s cur = Some Directory"
    by (auto split: option.splits node.splits)
  with Cons.prems(1) have d': "nodeAt s' cur = Some Directory"
    by (simp add: dirsKept_def)
  show ?case using Cons.prems(2) d d' Cons.IH [OF Cons.prems(1)]
    by (auto split: if_splits)
qed

lemma resolve_dirsKept:
  "dirsKept s s' \<Longrightarrow> resolve s p = Inr l \<Longrightarrow> resolve s' p = Inr l"
  using walk_dirsKept [of s s']
  by (auto simp: resolve_def dirsKept_def split: if_splits)

lemma filesKept_refl: "filesKept s s"
  by (simp add: filesKept_def)

lemma filesKept_trans: "filesKept s s' \<Longrightarrow> filesKept s' s'' \<Longrightarrow> filesKept s s''"
  by (simp add: filesKept_def)

lemma Mkdir_keeps:
  assumes "Mkdir nm s = (r, s')"
  shows "dirsKept s s' \<and> filesKept s s' \<and> refuses s' = refuses s"
proof (cases "s' = s")
  case True
  then show ?thesis by (simp add: dirsKept_refl filesKept_refl)
next
  case False
  with assms obtain l where "nodeAt s l = None" "l \<noteq> []"
    "s' = s\<lparr>nodes := (nodes s)(l \<mapsto> Directory)\<rparr>"
    by (auto simp: Mkdir_def Let_def split: if_splits sum.splits option.splits node.splits)
  then show ?thesis by (auto simp: dirsKept_def filesKept_def nodeAt_def)
qed

lemma MkdirAll_keeps:
  "MkdirAll d s = (r, s') \<Longrightarrow> dirsKept s s' \<and> filesKept s s' \<and> refuses s' = refuses s"
proof (induction d s arbitrary: r s' rule: MkdirAll.induct)
  case (1 path s)
  show ?case
  proof (cases "Stat path s")
    case (Inr n)
    with "1.prems" have "s' = s" by (cases n) (simp_all add: MkdirAll.simps [of path s])
    then show ?thesis by (simp add: dirsKept_refl filesKept_refl)
  next
    case (Inl e)
    obtain r1 s1 where p: "(if 1 < elementStart path
                 then MkdirAll (take (elementStart path - 1) path) s
                 else (None, s)) = (r1, s1)"
      by (cases "if 1 < elementStart path
                 then MkdirAll (take (elementStart path - 1) path) s
                 else (None, s)")
    have k1: "dirsKept s s1 \<and> filesKept s s1 \<and> refuses s1 = refuses s"
    proof (cases "1 < elementStart path")
      case True
      with p have "MkdirAll (take (elementStart path - 1) path) s = (r1, s1)" by simp
      with Inl True show ?thesis by (rule "1.IH")
    next
      case False
      with p show ?thesis by (simp add: dirsKept_refl filesKept_refl)
    qed
    show ?thesis
    proof (cases r1)
      case (Some err)
      with "1.prems" Inl p have "s' = s1" by (simp add: MkdirAll.simps [of path s])
      with k1 show ?thesis by simp
    next
      case None
      obtain r2 s2 where m: "Mkdir path s1 = (r2, s2)" by (cases "Mkdir path s1")
      from "1.prems" Inl p None m have "s' = s2"
        by (auto simp: MkdirAll.simps [of path s] split: option.splits sum.splits node.splits)
      with Mkdir_keeps [OF m] k1 show ?thesis
        by (auto intro: dirsKept_trans filesKept_trans)
    qed
  qed
qed

lemma OpenFile_ok:
  assumes "OpenFile p s = Inr f"
  shows "resolve s p = Inr (loc f) \<and> pos f = 0 \<and> loc f \<noteq> []
       \<and> (\<exists>d. nodes s (loc f) = Some (Regular d))"
  using assms
  by (auto simp: OpenFile_def nodeAt_def split: sum.splits option.splits node.splits if_splits)

lemma Create_ok:
  assumes "Create p s = (Inr f, s')"
  shows "resolve s p = Inr (loc f) \<and> loc f \<noteq> [] \<and> nodes s (loc f) \<noteq> Some Directory
       \<and> s' = s\<lparr>nodes := (nodes s)(loc f \<mapsto> Regular [])\<rparr>"
  using assms
  by (auto simp: Create_def nodeAt_def split: sum.splits option.splits node.splits if_splits)

lemma Size_ok: "Size f s = Inr n \<Longrightarrow> n = int (length (contents s (loc f)))"
  by (auto simp: Size_def split: option.splits)

lemma Truncate_ok:
  assumes "Truncate f n s = (None, s')"
  shows "0 \<le> n \<and> s' = s\<lparr>nodes := (nodes s)(loc f \<mapsto>
           Regular (take (nat n) (contents s (loc f))
                    @ replicate (nat n - length (contents s (loc f))) (CHR 0x00)))\<rparr>"
  using assms by (auto simp: Truncate_def Let_def split: if_splits option.splits)

lemma SeekEnd_ok:
  assumes "SeekEnd f off s = Inr f'"
  shows "0 \<le> int (length (contents s (loc f))) + off
       \<and> f' = f\<lparr>pos := nat (int (length (contents s (loc f))) + off)\<rparr>"
  using assms by (auto simp: SeekEnd_def Let_def split: if_splits option.splits)

lemma WriteString_ok:
  assumes "WriteString f data s = (None, f', s')"
  shows "s' = s\<lparr>nodes := (nodes s)(loc f \<mapsto>
           Regular (take (pos f) (contents s (loc f)
                                  @ replicate (pos f - length (contents s (loc f))) (CHR 0x00))
                    @ data @ drop (pos f + length data) (contents s (loc f))))\<rparr>"
  using assms by (auto simp: WriteString_def Let_def split: option.splits)

lemma dirsKept_store:
  "l \<noteq> [] \<Longrightarrow> nodes s l \<noteq> Some Directory
     \<Longrightarrow> dirsKept s (s\<lparr>nodes := (nodes s)(l \<mapsto> Regular d)\<rparr>)"
  by (auto simp: dirsKept_def nodeAt_def)

lemma saveToFile_success:
  assumes "saveToFile j p s = (None, s')"
  obtains s1 s2 f n where
    "MkdirAll (Dir p) s = (None, s1)"
    "if fileExists p s1 then s2 = s1 else (\<exists>f0. Create p s1 = (Inr f0, s2))"
    "OpenFile p s2 = Inr f" "Size f s2 = Inr n"
    "if n = 0
     then (\<exists>f'. WriteString f (''['' @ [newline] @ ''  '' @ indented j ''  '' ''  '' @ [newline] @ '']'') s2
                  = (None, f', s'))
     else (\<exists>s3 f' f''. Truncate f (n - 1) s2 = (None, s3) \<and> SeekEnd f (- 1) s3 = Inr f'
            \<and> WriteString f' ('','' @ [newline] @ ''  '' @ indented j ''  '' ''  '' @ [newline] @ '']'') s3
                = (None, f'', s'))"
proof -
  obtain r1 s1 where m: "MkdirAll (Dir p) s = (r1, s1)" by (cases "MkdirAll (Dir p) s")
  have r1: "r1 = None" using assms m by (cases r1) (auto simp: saveToFile_def)
  obtain r2 s2 where c: "(if \<not> fileExists p s1
            then (case Create p s1 of
                    (Inl err, s2) \<Rightarrow> (Some err, s2)
                  | (Inr file, s2) \<Rightarrow> (None, s2))
            else (None, s1)) = (r2, s2)"
    by (cases "(if \<not> fileExists p s1
            then (case Create p s1 of
                    (Inl err, s2) \<Rightarrow> (Some err, s2)
                  | (Inr file, s2) \<Rightarrow> (None, s2))
            else (None, s1))")
  have r2: "r2 = None" using assms m r1 c by (cases r2) (auto simp: saveToFile_def)
  have c': "if fileExists p s1 then s2 = s1 else (\<exists>f0. Create p s1 = (Inr f0, s2))"
    using c r2 by (auto split: if_splits prod.splits sum.splits)
  obtain f where o: "OpenFile p s2 = Inr f"
    using assms m r1 c r2 by (cases "OpenFile p s2") (auto simp: saveToFile_def)
  obtain n where z: "Size f s2 = Inr n"
    using assms m r1 c r2 o by (cases "Size f s2") (auto simp: saveToFile_def)
  have rest: "(if n = 0 then
            (case WriteString f (''['' @ [newline] @ ''  '' @ indented j ''  '' ''  '' @ [newline] @ '']'') s2 of
               (Some err, file', s3) \<Rightarrow> (Some (''initial write failed, '' @ Error err), s3)
             | (None, file', s3) \<Rightarrow> (None, s3))
          else
            (case Truncate f (n - 1) s2 of
               (Some err, s3) \<Rightarrow> (Some (''truncate failed, '' @ Error err), s3)
             | (None, s3) \<Rightarrow>
            (case SeekEnd f (- 1) s3 of
               Inl err \<Rightarrow> (Some (''seek failed, '' @ Error err), s3)
             | Inr file' \<Rightarrow>
            (case WriteString file' ('','' @ [newline] @ ''  '' @ indented j ''  '' ''  '' @ [newline] @ '']'') s3 of
               (Some err, file'', s4) \<Rightarrow> (Some (''append failed, '' @ Error err), s4)
             | (None, file'', s4) \<Rightarrow> (None, s4))))) = (None, s')"
    using assms m r1 c r2 o z by (simp add: saveToFile_def MarshalIndent_def)
  have w: "if n = 0
     then (\<exists>f'. WriteString f (''['' @ [newline] @ ''  '' @ indented j ''  '' ''  '' @ [newline] @ '']'') s2
                  = (None, f', s'))
     else (\<exists>s3 f' f''. Truncate f (n - 1) s2 = (None, s3) \<and> SeekEnd f (- 1) s3 = Inr f'
            \<and> WriteString f' ('','' @ [newline] @ ''  '' @ indented j ''  '' ''  '' @ [newline] @ '']'') s3
                = (None, f'', s'))"
    using rest by (auto split: if_splits prod.splits option.splits sum.splits)
  show ?thesis using that [OF _ c' o z w] m r1 by simp
qed

lemma ReadFile_iff:
  "ReadFile p s = Inr d \<longleftrightarrow> (\<exists>l. resolve s p = Inr l \<and> l \<noteq> [] \<and> nodes s l = Some (Regular d))"
  by (auto simp: ReadFile_def nodeAt_def split: sum.splits option.splits node.splits)

lemma fileExists_regular:
  "resolve s p = Inr l \<Longrightarrow> l \<noteq> [] \<Longrightarrow> nodes s l = Some n \<Longrightarrow> fileExists p s"
  by (simp add: fileExists_def Stat_def nodeAt_def)

lemma contents_store [simp]:
  "contents (s\<lparr>nodes := (nodes s)(l \<mapsto> Regular d)\<rparr>) l = d"
  by (simp add: contents_def)

lemma arrayText_snoc:
  assumes "es \<noteq> []"
  shows "arrayText (es @ [e])
         = take (length (arrayText es) - 2) (arrayText es) @ '','' @ [newline] @ ''  '' @ e @ [newline] @ '']''"
proof -
  have "arrayText es = (''['' @ [newline] @ ''  '' @ Join es ('','' @ [newline] @ ''  '')) @ [newline, CHR '']'']"
    by (simp add: arrayText_def)
  then have "take (length (arrayText es) - 2) (arrayText es)
             = ''['' @ [newline] @ ''  '' @ Join es ('','' @ [newline] @ ''  '')"
    by simp
  then show ?thesis using assms by (simp add: arrayText_def Join_append_last)
qed

lemma arrayText_long: "2 \<le> length (arrayText es)"
  by (simp add: arrayText_def)

lemma saveToFile_first:
  assumes start: "absent p s \<or> ReadFile p s = Inr []"
    and ok: "saveToFile j p s = (None, s')"
  shows "ReadFile p s' = Inr (arrayText [indented j ''  '' ''  ''])"
proof -
  from ok obtain s1 s2 f n where
    m: "MkdirAll (Dir p) s = (None, s1)"
    and c: "if fileExists p s1 then s2 = s1 else (\<exists>f0. Create p s1 = (Inr f0, s2))"
    and o: "OpenFile p s2 = Inr f" and z: "Size f s2 = Inr n"
    and w: "if n = 0
     then (\<exists>f'. WriteString f (''['' @ [newline] @ ''  '' @ indented j ''  '' ''  '' @ [newline] @ '']'') s2
                  = (None, f', s'))
     else (\<exists>s3 f' f''. Truncate f (n - 1) s2 = (None, s3) \<and> SeekEnd f (- 1) s3 = Inr f'
            \<and> WriteString f' ('','' @ [newline] @ ''  '' @ indented j ''  '' ''  '' @ [newline] @ '']'') s3
                = (None, f'', s'))"
    by (rule saveToFile_success)
  from MkdirAll_keeps [OF m] have k: "dirsKept s s1" "filesKept s s1" by simp_all
  from OpenFile_ok [OF o] obtain d where
    r2: "resolve s2 p = Inr (loc f)" and p0: "pos f = 0" and ne: "loc f \<noteq> []"
    and d: "nodes s2 (loc f) = Some (Regular d)" by blast
  have empty: "d = []"
  proof (cases "fileExists p s1")
    case True
    then have "\<not> absent p s" using m by (simp add: absent_def)
    with start have "ReadFile p s = Inr []" by simp
    then obtain l where l: "resolve s p = Inr l" "nodes s l = Some (Regular [])"
      by (auto simp: ReadFile_iff)
    from l(1) k(1) have "resolve s1 p = Inr l" by (rule resolve_dirsKept [rotated])
    moreover from l(2) k(2) have "nodes s1 l = Some (Regular [])" by (simp add: filesKept_def)
    moreover from True c have "s2 = s1" by simp
    ultimately show ?thesis using r2 d by simp
  next
    case False
    with c obtain f0 where "Create p s1 = (Inr f0, s2)" by auto
    from Create_ok [OF this] have
      f0: "resolve s1 p = Inr (loc f0)" "loc f0 \<noteq> []" "nodes s1 (loc f0) \<noteq> Some Directory"
      "s2 = s1\<lparr>nodes := (nodes s1)(loc f0 \<mapsto> Regular [])\<rparr>" by simp_all
    have "dirsKept s1 s2" unfolding f0(4) using f0(2,3) by (rule dirsKept_store)
    with f0(1) have "resolve s2 p = Inr (loc f0)" by (rule resolve_dirsKept [rotated])
    with r2 have "loc f = loc f0" by simp
    with d f0(4) show ?thesis by simp
  qed
  have n0: "n = 0" using Size_ok [OF z] d empty by (simp add: contents_def)
  with w obtain f' where
    "WriteString f (''['' @ [newline] @ ''  '' @ indented j ''  '' ''  '' @ [newline] @ '']'') s2
       = (None, f', s')" by auto
  from WriteString_ok [OF this] d empty p0
  have s': "s' = s2\<lparr>nodes := (nodes s2)(loc f \<mapsto>
              Regular (''['' @ [newline] @ ''  '' @ indented j ''  '' ''  '' @ [newline] @ '']''))\<rparr>"
    by (simp add: contents_def)
  have "dirsKept s2 s'" unfolding s' using ne d by (intro dirsKept_store) simp_all
  with r2 have "resolve s' p = Inr (loc f)" by (rule resolve_dirsKept [rotated])
  then show ?thesis using ne s' by (auto simp: ReadFile_iff arrayText_def)
qed

lemma splice:
  assumes "2 \<le> length d" "data \<noteq> []"
  shows "take (length d - 2) (take (length d - 1) d @ replicate k z) @ data
         @ drop (length d - 2 + length data) (take (length d - 1) d)
         = take (length d - 2) d @ data"
  using assms by (cases data) (auto simp: min_def)

lemma saveToFile_next:
  assumes rd: "ReadFile p s = Inr (arrayText es)" and es: "es \<noteq> []"
    and ok: "saveToFile j p s = (None, s')"
  shows "ReadFile p s' = Inr (arrayText (es @ [indented j ''  '' ''  '']))"
proof -
  let ?d = "arrayText es"
  from ok obtain s1 s2 f n where
    m: "MkdirAll (Dir p) s = (None, s1)"
    and c: "if fileExists p s1 then s2 = s1 else (\<exists>f0. Create p s1 = (Inr f0, s2))"
    and o: "OpenFile p s2 = Inr f" and z: "Size f s2 = Inr n"
    and w: "if n = 0
     then (\<exists>f'. WriteString f (''['' @ [newline] @ ''  '' @ indented j ''  '' ''  '' @ [newline] @ '']'') s2
                  = (None, f', s'))
     else (\<exists>s3 f' f''. Truncate f (n - 1) s2 = (None, s3) \<and> SeekEnd f (- 1) s3 = Inr f'
            \<and> WriteString f' ('','' @ [newline] @ ''  '' @ indented j ''  '' ''  '' @ [newline] @ '']'') s3
                = (None, f'', s'))"
    by (rule saveToFile_success)
  from MkdirAll_keeps [OF m] have k: "dirsKept s s1" "filesKept s s1" by simp_all
  from rd obtain l where l: "resolve s p = Inr l" "l \<noteq> []" "nodes s l = Some (Regular ?d)"
    by (auto simp: ReadFile_iff)
  from l(1) k(1) have r1: "resolve s1 p = Inr l" by (rule resolve_dirsKept [rotated])
  from l(3) k(2) have d1: "nodes s1 l = Some (Regular ?d)" by (simp add: filesKept_def)
  from r1 l(2) d1 have "fileExists p s1" by (rule fileExists_regular)
  with c have s2: "s2 = s1" by simp
  from OpenFile_ok [OF o] r1 s2 have f: "loc f = l" "pos f = 0" by simp_all
  have len: "2 \<le> length ?d" by (rule arrayText_long)
  have n: "n = int (length ?d)" using Size_ok [OF z] f d1 s2 by (simp add: contents_def)
  with len have "n \<noteq> 0" by auto
  with w obtain s3 f' f'' where
    t: "Truncate f (n - 1) s2 = (None, s3)" and k3: "SeekEnd f (- 1) s3 = Inr f'"
    and w3: "WriteString f' ('','' @ [newline] @ ''  '' @ indented j ''  '' ''  '' @ [newline] @ '']'') s3
                = (None, f'', s')" by auto
  have c1: "contents s1 l = ?d" using d1 by (simp add: contents_def)
  have nn: "nat (n - 1) = length ?d - 1" using n len by simp
  from Truncate_ok [OF t] have
    s3: "s3 = s1\<lparr>nodes := (nodes s1)(l \<mapsto> Regular (take (length ?d - 1) ?d))\<rparr>"
    unfolding s2 f c1 nn by simp
  have c3: "contents s3 l = take (length ?d - 1) ?d" unfolding s3 by simp
  have l3: "int (length (contents s3 l)) + (- 1) = int (length ?d - 2)"
    unfolding c3 using len by simp
  from SeekEnd_ok [OF k3] have f': "loc f' = l" "pos f' = length ?d - 2"
    unfolding f l3 using f by simp_all
  from WriteString_ok [OF w3] have
    s': "s' = s3\<lparr>nodes := (nodes s3)(l \<mapsto> Regular (take (length ?d - 2) ?d
            @ '','' @ [newline] @ ''  '' @ indented j ''  '' ''  '' @ [newline] @ '']''))\<rparr>"
    unfolding f' c3 using splice [OF len, of "'','' @ [newline] @ ''  '' @ indented j ''  '' ''  '' @ [newline] @ '']''"] by simp
  have "dirsKept s1 s3" unfolding s3 using l(2) d1 by (intro dirsKept_store) simp_all
  moreover have "dirsKept s3 s'" unfolding s' using l(2) by (intro dirsKept_store) (simp_all add: s3)
  ultimately have "dirsKept s1 s'" by (rule dirsKept_trans)
  with r1 have "resolve s' p = Inr l" by (rule resolve_dirsKept [rotated])
  then show ?thesis using l(2) s' arrayText_snoc [OF es, of "indented j ''  '' ''  ''"]
    by (auto simp: ReadFile_iff)
qed

lemma appendAll_next:
  assumes "ReadFile p s = Inr (arrayText es)" "es \<noteq> []" "fst (appendAll js p s) = None"
  shows "ReadFile p (snd (appendAll js p s))
         = Inr (arrayText (es @ map (\<lambda>j. indented j ''  '' ''  '') js))"
  using assms
proof (induction js arbitrary: s es)
  case Nil
  then show ?case by simp
next
  case (Cons j js)
  obtain r s1 where sv: "saveToFile j p s = (r, s1)" by (cases "saveToFile j p s")
  with Cons.prems(3) have r: "r = None" by (cases r) simp_all
  from Cons.prems(1,2) sv [unfolded r]
  have 1: "ReadFile p s1 = Inr (arrayText (es @ [indented j ''  '' ''  '']))"
    by (rule saveToFile_next)
  have 2: "fst (appendAll js p s1) = None" using Cons.prems(3) sv r by simp
  from Cons.IH [OF 1 _ 2] show ?case using sv r by simp
qed

text \<open>
  Claim C1. Take a path whose file is absent, or holds zero bytes, when \<open>saveToFile\<close> looks
  for it, and append one or more records to it, each call returning \<open>nil\<close>. The file then
  holds a JSON array: it reads back as exactly the appended records, in the order of the
  calls, each an object with the members of its record. Its text is the opening bracket, the
  first record with no comma before it, and the closing bracket on a line of its own; every
  later append replaces the final line break and bracket by a comma, the new record and the
  bracket again.
\<close>
theorem appended_records_form_a_JSON_array:
  assumes "absent filePath s \<or> ReadFile filePath s = Inr []"
    and "js \<noteq> []"
    and "fst (appendAll js filePath s) = None"
  shows "ReadFile filePath (snd (appendAll js filePath s))
           = Inr (arrayText (map (\<lambda>j. indented j ''  '' ''  '') js))
       \<and> parseArray (arrayText (map (\<lambda>j. indented j ''  '' ''  '') js)) = Some (map spelled js)
       \<and> arrayText [indented (hd js) ''  '' ''  '']
           = ''['' @ [newline] @ ''  '' @ indented (hd js) ''  '' ''  '' @ [newline] @ '']''
       \<and> arrayText (map (\<lambda>j. indented j ''  '' ''  '') (js @ [j']))
           = take (length (arrayText (map (\<lambda>j. indented j ''  '' ''  '') js)) - 2)
               (arrayText (map (\<lambda>j. indented j ''  '' ''  '') js))
             @ '','' @ [newline] @ ''  '' @ indented j' ''  '' ''  '' @ [newline] @ '']''"
proof -
  obtain j rest where js: "js = j # rest" using assms(2) by (cases js) auto
  obtain r s1 where sv: "saveToFile j filePath s = (r, s1)" by (cases "saveToFile j filePath s")
  with assms(3) js have r: "r = None" by (cases r) simp_all
  from assms(1) sv [unfolded r]
  have 1: "ReadFile filePath s1 = Inr (arrayText [indented j ''  '' ''  ''])"
    by (rule saveToFile_first)
  have 2: "fst (appendAll rest filePath s1) = None" using assms(3) js sv r by simp
  from appendAll_next [OF 1 _ 2]
  have "ReadFile filePath (snd (appendAll js filePath s))
           = Inr (arrayText (map (\<lambda>j. indented j ''  '' ''  '') js))"
    using js sv r by simp
  moreover have "parseArray (arrayText (map (\<lambda>j. indented j ''  '' ''  '') js)) = Some (map spelled js)"
    by (rule parseArray_arrayText) (simp_all add: isSpace_def)
  moreover have "arrayText [indented (hd js) ''  '' ''  '']
           = ''['' @ [newline] @ ''  '' @ indented (hd js) ''  '' ''  '' @ [newline] @ '']''"
    by (simp add: arrayText_def)
  moreover have "arrayText (map (\<lambda>j. indented j ''  '' ''  '') (js @ [j']))
           = take (length (arrayText (map (\<lambda>j. indented j ''  '' ''  '') js)) - 2)
               (arrayText (map (\<lambda>j. indented j ''  '' ''  '') js))
             @ '','' @ [newline] @ ''  '' @ indented j' ''  '' ''  '' @ [newline] @ '']''"
    using arrayText_snoc [of "map (\<lambda>j. indented j ''  '' ''  '') js" "indented j' ''  '' ''  ''"] assms(2)
    by simp
  ultimately show ?thesis by blast
qed

theorem appended_records_form_a_JSON_array_witness:
  "(absent ''./logs/custom_default.json'' readOnlyRoot
    \<or> ReadFile ''./logs/custom_default.json'' readOnlyRoot = Inr [])
   \<and> [recordOf INFO zeroOptions exampleClock ''first'',
       recordOf WARN zeroOptions exampleClock ''second''] \<noteq> []
   \<and> fst (appendAll [recordOf INFO zeroOptions exampleClock ''first'',
                      recordOf WARN zeroOptions exampleClock ''second'']
             ''./logs/custom_default.json'' readOnlyRoot) = None
   \<and> ReadFile ''./logs/custom_default.json''
        (snd (appendAll [recordOf INFO zeroOptions exampleClock ''first'',
                         recordOf WARN zeroOptions exampleClock ''second'']
                ''./logs/custom_default.json'' readOnlyRoot))
      = Inr (arrayText (map (\<lambda>j. indented j ''  '' ''  '')
               [recordOf INFO zeroOptions exampleClock ''first'',
                recordOf WARN zeroOptions exampleClock ''second'']))
   \<and> parseArray (arrayText (map (\<lambda>j. indented j ''  '' ''  '')
               [recordOf INFO zeroOptions exampleClock ''first'',
                recordOf WARN zeroOptions exampleClock ''second'']))
      = Some [[(''time'', ''2024-01-02 03:04:05''), (''level'', ''INFO''), (''message'', ''first'')],
              [(''time'', ''2024-01-02 03:04:05''), (''level'', ''WARN''), (''message'', ''second'')]]"
proof -
  have a: "absent ''./logs/custom_default.json'' readOnlyRoot
    \<or> ReadFile ''./logs/custom_default.json'' readOnlyRoot = Inr []"
    by code_simp
  have b: "[recordOf INFO zeroOptions exampleClock ''first'',
       recordOf WARN zeroOptions exampleClock ''second''] \<noteq> []"
    by simp
  have c: "fst (appendAll [recordOf INFO zeroOptions exampleClock ''first'',
                      recordOf WARN zeroOptions exampleClock ''second'']
             ''./logs/custom_default.json'' readOnlyRoot) = None"
    by code_simp
  have d: "map spelled [recordOf INFO zeroOptions exampleClock ''first'',
                      recordOf WARN zeroOptions exampleClock ''second'']
      = [[(''time'', ''2024-01-02 03:04:05''), (''level'', ''INFO''), (''message'', ''first'')],
         [(''time'', ''2024-01-02 03:04:05''), (''level'', ''WARN''), (''message'', ''second'')]]"
    by code_simp
  from appended_records_form_a_JSON_array [OF a b c]
  show ?thesis using a b c unfolding d by blast
qed

section \<open>The setting in force\<close>

lemma saveToFile_writes:
  assumes ok: "saveToFile j p s = (None, s')"
  shows "\<exists>before. ReadFile p s' = Inr (before @ indented j ''  '' ''  '' @ [newline] @ '']'')"
proof -
  let ?json = "indented j ''  '' ''  ''"
  from ok obtain s1 s2 f n where
    m: "MkdirAll (Dir p) s = (None, s1)"
    and c: "if fileExists p s1 then s2 = s1 else (\<exists>f0. Create p s1 = (Inr f0, s2))"
    and o: "OpenFile p s2 = Inr f" and z: "Size f s2 = Inr n"
    and w: "if n = 0
     then (\<exists>f'. WriteString f (''['' @ [newline] @ ''  '' @ ?json @ [newline] @ '']'') s2
                  = (None, f', s'))
     else (\<exists>s3 f' f''. Truncate f (n - 1) s2 = (None, s3) \<and> SeekEnd f (- 1) s3 = Inr f'
            \<and> WriteString f' ('','' @ [newline] @ ''  '' @ ?json @ [newline] @ '']'') s3
                = (None, f'', s'))"
    by (rule saveToFile_success)
  from OpenFile_ok [OF o] obtain d where
    r2: "resolve s2 p = Inr (loc f)" and p0: "pos f = 0" and ne: "loc f \<noteq> []"
    and d: "nodes s2 (loc f) = Some (Regular d)" by blast
  have c2: "contents s2 (loc f) = d" using d by (simp add: contents_def)
  have n: "n = int (length d)" using Size_ok [OF z] c2 by simp
  show ?thesis
  proof (cases "n = 0")
    case True
    then have e: "d = []" using n by simp
    from True w obtain f' where
      "WriteString f (''['' @ [newline] @ ''  '' @ ?json @ [newline] @ '']'') s2 = (None, f', s')"
      by auto
    from WriteString_ok [OF this] c2 e p0
    have s': "s' = s2\<lparr>nodes := (nodes s2)(loc f \<mapsto>
                Regular (''['' @ [newline] @ ''  '' @ ?json @ [newline] @ '']''))\<rparr>"
      by simp
    have "dirsKept s2 s'" unfolding s' using ne d by (intro dirsKept_store) simp_all
    with r2 have "resolve s' p = Inr (loc f)" by (rule resolve_dirsKept [rotated])
    then have "ReadFile p s' = Inr ((''['' @ [newline] @ ''  '') @ ?json @ [newline] @ '']'')"
      using ne s' by (auto simp: ReadFile_iff)
    then show ?thesis by blast
  next
    case False
    with w obtain s3 f' f'' where
      t: "Truncate f (n - 1) s2 = (None, s3)" and k3: "SeekEnd f (- 1) s3 = Inr f'"
      and w3: "WriteString f' ('','' @ [newline] @ ''  '' @ ?json @ [newline] @ '']'') s3
                  = (None, f'', s')" by auto
    have nn: "nat (n - 1) = length d - 1" using n by simp
    from Truncate_ok [OF t] have
      s3: "s3 = s2\<lparr>nodes := (nodes s2)(loc f \<mapsto> Regular (take (length d - 1) d))\<rparr>"
      unfolding c2 nn by simp
    have c3: "contents s3 (loc f) = take (length d - 1) d" unfolding s3 by simp
    from SeekEnd_ok [OF k3] have
      sk: "0 \<le> int (length (take (length d - 1) d)) + (- 1)"
      and f': "f' = f\<lparr>pos := nat (int (length (take (length d - 1) d)) + (- 1))\<rparr>"
      unfolding c3 by simp_all
    from sk have len: "2 \<le> length d" by simp
    then have pf: "pos f' = length d - 2" "loc f' = loc f" using f' by simp_all
    from WriteString_ok [OF w3] have
      s': "s' = s3\<lparr>nodes := (nodes s3)(loc f \<mapsto> Regular (take (length d - 2) d
              @ '','' @ [newline] @ ''  '' @ ?json @ [newline] @ '']''))\<rparr>"
      unfolding pf c3
      using splice [OF len, of "'','' @ [newline] @ ''  '' @ ?json @ [newline] @ '']''"] by simp
    have "dirsKept s2 s3" unfolding s3 using ne d by (intro dirsKept_store) simp_all
    moreover have "dirsKept s3 s'" unfolding s' using ne by (intro dirsKept_store) (simp_all add: s3)
    ultimately have "dirsKept s2 s'" by (rule dirsKept_trans)
    with r2 have "resolve s' p = Inr (loc f)" by (rule resolve_dirsKept [rotated])
    then have "ReadFile p s'
        = Inr ((take (length d - 2) d @ '','' @ [newline] @ ''  '') @ ?json @ [newline] @ '']'')"
      using ne s' by (auto simp: ReadFile_iff)
    then show ?thesis by blast
  qed
qed

lemma fsOut_setting:
  "fsOut (logMessage l level message options clk s) =
     (case fileLogSettingOf l (optionsOf options) of
        Bool b \<Rightarrow>
          if b then snd (saveToFile (recordOf level (optionsOf options) clk message) ''./log.json'' s)
          else s
      | String p \<Rightarrow>
          if p \<noteq> [] then snd (saveToFile (recordOf level (optionsOf options) clk message) p s)
          else s
      | _ \<Rightarrow> s)"
proof -
  let ?v = "fileLogSettingOf l (optionsOf options)"
  let ?j = "recordOf level (optionsOf options) clk message"
  have off: "fsOut (logMessage l level message options clk s) = s"
    if "checkSaveLogOption ?v = (False, path, err)" for path err
    using logMessage_not_saving [OF that] by simp
  have on: "fsOut (logMessage l level message options clk s) = snd (saveToFile ?j path s)"
    if c: "checkSaveLogOption ?v = (True, path, None)" for path
  proof (cases "saveToFile ?j path s")
    case (Pair r s')
    then show ?thesis
      using logMessage_saved [OF c, of level clk message s s']
        logMessage_failed [OF c, of level clk message s _ s']
      by (cases r) simp_all
  qed
  show ?thesis
  proof (cases ?v)
    case Nil
    then show ?thesis using off [of "[]"] by simp
  next
    case (Bool b)
    then show ?thesis using off [of "''./log.json''" None] on [of "''./log.json''"]
      by (cases b) simp_all
  next
    case (String p)
    then show ?thesis using off [of "''./log.json''" None] on [of p]
      by (cases "p = []") simp_all
  next
    case (Other t)
    then show ?thesis using off [of "[]"] by simp
  qed
qed

text \<open>
  Claim C6. The setting in force for a call is the \<open>FileLog\<close> of its options when that
  is set (not nil) and the logger's default otherwise, also for a call without options. With
  \<open>false\<close> in force the file system is left as it was; with \<open>true\<close> it is what
  \<open>saveToFile\<close> leaves after appending the call's record to \<open>./log.json\<close>; with a
  non-empty string it is what \<open>saveToFile\<close> leaves after appending to that path. And
  that is a write: when the append returns \<open>nil\<close>, the file at that path ends with the
  serialised record and the closing bracket.
\<close>
theorem fileLog_setting_in_force:
  "fsOut (logMessage l level message (opts # rest) clk s) =
     (case (if LogOptions.FileLog opts \<noteq> Nil then LogOptions.FileLog opts else Logger.FileLog l) of
        Bool b \<Rightarrow>
          if b then snd (saveToFile (recordOf level opts clk message) ''./log.json'' s) else s
      | String p \<Rightarrow>
          if p \<noteq> [] then snd (saveToFile (recordOf level opts clk message) p s) else s
      | _ \<Rightarrow> s)
   \<and> fsOut (logMessage l level message [] clk s) =
     (case Logger.FileLog l of
        Bool b \<Rightarrow>
          if b then snd (saveToFile (recordOf level zeroOptions clk message) ''./log.json'' s) else s
      | String p \<Rightarrow>
          if p \<noteq> [] then snd (saveToFile (recordOf level zeroOptions clk message) p s) else s
      | _ \<Rightarrow> s)
   \<and> (((if LogOptions.FileLog opts \<noteq> Nil then LogOptions.FileLog opts else Logger.FileLog l)
          = Bool True \<and> path = ''./log.json''
        \<or> (if LogOptions.FileLog opts \<noteq> Nil then LogOptions.FileLog opts else Logger.FileLog l)
          = String path \<and> path \<noteq> [])
       \<and> fst (saveToFile (recordOf level opts clk message) path s) = None
       \<longrightarrow> (\<exists>before. ReadFile path (fsOut (logMessage l level message (opts # rest) clk s))
                    = Inr (before @ indented (recordOf level opts clk message) ''  '' ''  ''
                           @ [newline] @ '']'')))"
proof -
  let ?v = "if LogOptions.FileLog opts \<noteq> Nil then LogOptions.FileLog opts else Logger.FileLog l"
  let ?j = "recordOf level opts clk message"
  have a: "fsOut (logMessage l level message (opts # rest) clk s) =
     (case ?v of
        Bool b \<Rightarrow> if b then snd (saveToFile ?j ''./log.json'' s) else s
      | String p \<Rightarrow> if p \<noteq> [] then snd (saveToFile ?j p s) else s
      | _ \<Rightarrow> s)"
    using fsOut_setting [of l level message "opts # rest" clk s]
    unfolding optionsOf_simps fileLogSettingOf_def .
  have b: "fsOut (logMessage l level message [] clk s) =
     (case Logger.FileLog l of
        Bool b \<Rightarrow>
          if b then snd (saveToFile (recordOf level zeroOptions clk message) ''./log.json'' s) else s
      | String p \<Rightarrow>
          if p \<noteq> [] then snd (saveToFile (recordOf level zeroOptions clk message) p s) else s
      | _ \<Rightarrow> s)"
    using fsOut_setting [of l level message "[]" clk s]
    unfolding optionsOf_simps fileLogSettingOf_def by (simp add: zeroOptions_def)
  have c: "\<exists>before. ReadFile path (fsOut (logMessage l level message (opts # rest) clk s))
                    = Inr (before @ indented ?j ''  '' ''  '' @ [newline] @ '']'')"
    if v: "?v = Bool True \<and> path = ''./log.json'' \<or> ?v = String path \<and> path \<noteq> []"
      and ok: "fst (saveToFile ?j path s) = None"
  proof -
    have "fsOut (logMessage l level message (opts # rest) clk s) = snd (saveToFile ?j path s)"
      using v by (rule disjE) (simp_all add: a)
    moreover have "saveToFile ?j path s = (None, snd (saveToFile ?j path s))"
      using ok by (cases "saveToFile ?j path s") simp
    ultimately show ?thesis using saveToFile_writes [of ?j path s "snd (saveToFile ?j path s)"]
      by simp
  qed
  show ?thesis using a b c by blast
qed

theorem fileLog_setting_in_force_witness:
  "ReadFile ''./log.json''
      (fsOut (logMessage (SetDefaultFileLog New (Bool False)) INFO
                ''Test 7: Default false with override''
                [\<lparr>StartTime = 0, Process = [], User = [], FileLog = Bool True\<rparr>]
                exampleClock quietHome))
     = Inr (arrayText [indented (recordOf INFO zeroOptions exampleClock
                          ''Test 7: Default false with override'') ''  '' ''  ''])
   \<and> (\<exists>before.
        ReadFile ''./logs/single_override.json''
          (fsOut (logMessage (SetDefaultFileLog New (String ''./logs/custom_default.json'')) INFO
                    ''Test 4: Override default path for single log''
                    [\<lparr>StartTime = 0, Process = [], User = [],
                      FileLog = String ''./logs/single_override.json''\<rparr>]
                    exampleClock quietHome))
        = Inr (before @ indented (recordOf INFO
                 \<lparr>StartTime = 0, Process = [], User = [],
                   FileLog = String ''./logs/single_override.json''\<rparr> exampleClock
                 ''Test 4: Override default path for single log'') ''  '' ''  '' @ [newline] @ '']''))
   \<and> nodeAt (fsOut (logMessage (SetDefaultFileLog New (String ''./logs/custom_default.json'')) INFO
                    ''Test 4: Override default path for single log''
                    [\<lparr>StartTime = 0, Process = [], User = [],
                      FileLog = String ''./logs/single_override.json''\<rparr>]
                    exampleClock quietHome)) [''home'', ''logs'', ''custom_default.json''] = None
   \<and> fsOut (logMessage (SetDefaultFileLog New (Bool True)) WARN ''not saved''
              [\<lparr>StartTime = 0, Process = [], User = [], FileLog = Bool False\<rparr>]
              exampleClock quietHome) = quietHome
   \<and> fsOut (logMessage New WARN ''not saved'' [] exampleClock quietHome) = quietHome"
proof -
  let ?o = "\<lparr>StartTime = 0, Process = [], User = [], FileLog = String ''./logs/single_override.json''\<rparr>"
  have 1: "ReadFile ''./log.json''
      (fsOut (logMessage (SetDefaultFileLog New (Bool False)) INFO
                ''Test 7: Default false with override''
                [\<lparr>StartTime = 0, Process = [], User = [], FileLog = Bool True\<rparr>]
                exampleClock quietHome))
     = Inr (arrayText [indented (recordOf INFO zeroOptions exampleClock
                          ''Test 7: Default false with override'') ''  '' ''  ''])"
    by code_simp
  have v: "(if LogOptions.FileLog ?o \<noteq> Nil then LogOptions.FileLog ?o
            else Logger.FileLog (SetDefaultFileLog New (String ''./logs/custom_default.json'')))
           = String ''./logs/single_override.json'' \<and> ''./logs/single_override.json'' \<noteq> []"
    by simp
  have ok: "fst (saveToFile (recordOf INFO ?o exampleClock
                 ''Test 4: Override default path for single log'')
              ''./logs/single_override.json'' quietHome) = None"
    by code_simp
  have 3: "nodeAt (fsOut (logMessage (SetDefaultFileLog New (String ''./logs/custom_default.json'')) INFO
                    ''Test 4: Override default path for single log'' [?o]
                    exampleClock quietHome)) [''home'', ''logs'', ''custom_default.json''] = None"
    by code_simp
  note t = fileLog_setting_in_force [of "SetDefaultFileLog New (String ''./logs/custom_default.json'')"
      INFO "''Test 4: Override default path for single log''" ?o "[]" exampleClock quietHome
      "''./logs/single_override.json''"]
  have 2: "\<exists>before.
        ReadFile ''./logs/single_override.json''
          (fsOut (logMessage (SetDefaultFileLog New (String ''./logs/custom_default.json'')) INFO
                    ''Test 4: Override default path for single log'' [?o] exampleClock quietHome))
        = Inr (before @ indented (recordOf INFO ?o exampleClock
                 ''Test 4: Override default path for single log'') ''  '' ''  '' @ [newline] @ '']'')"
    using t v ok by blast
  have 4: "fsOut (logMessage (SetDefaultFileLog New (Bool True)) WARN ''not saved''
              [\<lparr>StartTime = 0, Process = [], User = [], FileLog = Bool False\<rparr>]
              exampleClock quietHome) = quietHome"
    using fileLog_setting_in_force [of "SetDefaultFileLog New (Bool True)" WARN "''not saved''"
      "\<lparr>StartTime = 0, Process = [], User = [], FileLog = Bool False\<rparr>" "[]" exampleClock quietHome]
    by simp
  have 5: "fsOut (logMessage New WARN ''not saved'' [] exampleClock quietHome) = quietHome"
    using fileLog_setting_in_force [of New WARN "''not saved''" _ _ exampleClock quietHome]
    by (simp add: New_def)
  show ?thesis using 1 2 3 4 5 by blast
qed

section \<open>Directories of the path\<close>

lemma Split_not_Nil [simp]: "Split p \<noteq> []"
  by (induction p) (auto split: list.splits)

lemma Split_append_slash: "Split (xs @ CHR ''/'' # ys) = Split xs @ Split ys"
  by (induction xs) (auto split: list.splits)

lemma Split_no_slash: "CHR ''/'' \<notin> set xs \<Longrightarrow> Split xs = [xs]"
  by (induction xs) auto

lemma Split_elems: "c \<in> set (Split p) \<Longrightarrow> CHR ''/'' \<notin> set c"
  by (induction p arbitrary: c) (auto split: if_splits list.splits)

lemma Split_Join:
  "es \<noteq> [] \<Longrightarrow> \<forall>e\<in>set es. CHR ''/'' \<notin> set e \<Longrightarrow> Split (Join es ''/'') = es"
proof (induction es rule: induct_list012)
  case 1
  then show ?case by simp
next
  case (2 e)
  then show ?case by (simp add: Split_no_slash)
next
  case (3 e e' es)
  have "Split (Join (e # e' # es) ''/'') = Split (e @ CHR ''/'' # Join (e' # es) ''/'')" by simp
  also have "\<dots> = Split e @ Split (Join (e' # es) ''/'')" by (rule Split_append_slash)
  also have "\<dots> = [e] @ (e' # es)" using 3 by (simp add: Split_no_slash)
  finally show ?case by simp
qed

lemma path_parts:
  "p = rev (dropWhile (\<lambda>c. c \<noteq> CHR ''/'') (rev p)) @ rev (takeWhile (\<lambda>c. c \<noteq> CHR ''/'') (rev p))"
proof -
  have "rev p = takeWhile (\<lambda>c. c \<noteq> CHR ''/'') (rev p) @ dropWhile (\<lambda>c. c \<noteq> CHR ''/'') (rev p)"
    by simp
  then have "rev (rev p) = rev (takeWhile (\<lambda>c. c \<noteq> CHR ''/'') (rev p) @ dropWhile (\<lambda>c. c \<noteq> CHR ''/'') (rev p))"
    by (rule arg_cong)
  then show ?thesis by (simp only: rev_rev_ident rev_append)
qed

lemma dirPart_cases:
  obtains (none) "rev (dropWhile (\<lambda>c. c \<noteq> CHR ''/'') (rev p)) = []" "CHR ''/'' \<notin> set p"
  | (some) q e where "rev (dropWhile (\<lambda>c. c \<noteq> CHR ''/'') (rev p)) = q @ ''/''"
      "p = q @ CHR ''/'' # e" "CHR ''/'' \<notin> set e"
proof (cases "dropWhile (\<lambda>c. c \<noteq> CHR ''/'') (rev p)")
  case Nil
  then have "\<forall>x\<in>set (rev p). x \<noteq> CHR ''/''"
    by (simp only: dropWhile_eq_Nil_conv)
  then have "CHR ''/'' \<notin> set p" by auto
  with Nil none show ?thesis by simp
next
  case (Cons x xs)
  then have x: "x = CHR ''/''" using hd_dropWhile [of "\<lambda>c. c \<noteq> CHR ''/''" "rev p"] by auto
  let ?e = "rev (takeWhile (\<lambda>c. c \<noteq> CHR ''/'') (rev p))"
  have 1: "rev (dropWhile (\<lambda>c. c \<noteq> CHR ''/'') (rev p)) = rev xs @ ''/''" using Cons x by simp
  have 2: "p = rev xs @ CHR ''/'' # ?e" using path_parts [of p] 1 by simp
  have 3: "CHR ''/'' \<notin> set ?e" using set_takeWhileD [of "CHR ''/''" "\<lambda>c. c \<noteq> CHR ''/''" "rev p"] by auto
  from some [OF 1 2 3] show ?thesis .
qed

lemma cleanElems_named:
  "''..'' \<notin> set cs \<Longrightarrow> cleanElems r acc cs = rev acc @ filter named cs"
  by (induction cs arbitrary: acc) (auto simp: named_def)

lemma rooted_simps:
  "rooted [] = False" "rooted (c # cs) = (c = CHR ''/'')"
  by (simp_all add: rooted_def)

lemma Join_named_head:
  assumes "es \<noteq> []" "\<forall>e\<in>set es. named e \<and> CHR ''/'' \<notin> set e"
  shows "Join es ''/'' \<noteq> [] \<and> \<not> rooted (Join es ''/'')"
proof -
  obtain e rest where es: "es = e # rest" using assms(1) by (cases es) auto
  then obtain x xs where e: "e = x # xs" "x \<noteq> CHR ''/''"
    using assms(2) by (cases e) (auto simp: named_def)
  show ?thesis using es e by (cases rest) (simp_all add: rooted_simps)
qed

lemma Split_last_elem:
  "CHR ''/'' \<notin> set e \<Longrightarrow> Split (q @ CHR ''/'' # e) = Split q @ [e]"
  by (simp add: Split_append_slash Split_no_slash)

lemma rooted_dirPart: "rooted (q @ ''/'') = rooted (q @ CHR ''/'' # e)"
  by (cases q) (simp_all add: rooted_simps)

lemma Clean_plain:
  assumes "''..'' \<notin> set (Split q)"
  shows "Clean (q @ ''/'')
         = (if rooted (q @ ''/'') then CHR ''/'' # Join (filter named (Split q)) ''/''
            else if filter named (Split q) = [] then ''.''
            else Join (filter named (Split q)) ''/'')"
proof -
  have sd: "Split (q @ ''/'') = Split q @ [[]]"
    using Split_append_slash [of q "[]"] by simp
  have nodots: "''..'' \<notin> set (Split q @ [[]])" using assms by simp
  have "cleanElems (rooted (q @ ''/'')) [] (Split (q @ ''/'')) = filter named (Split q)"
    unfolding sd using cleanElems_named [OF nodots, of "rooted (q @ ''/'')" "[]"]
    by (simp add: named_def)
  then show ?thesis by (simp add: Clean_def Let_def)
qed

lemma dirsExist_here: "dirsExist s cur cs \<Longrightarrow> nodeAt s cur = Some Directory"
  by (cases cs) simp_all

lemma dirsExist_later:
  "dirsKept s s' \<Longrightarrow> dirsExist s cur cs \<Longrightarrow> dirsExist s' cur cs"
  by (induction cs arbitrary: cur) (auto simp: dirsKept_def)

lemma walk_plain:
  assumes "''..'' \<notin> set cs" "cs \<noteq> []" "named (last cs)"
    and "dirsExist s cur (butlast (filter named cs))"
  shows "walk s cur cs = Inr (cur @ filter named cs)"
  using assms
proof (induction cs arbitrary: cur)
  case Nil
  then show ?case by simp
next
  case (Cons c cs)
  have here: "nodeAt s cur = Some Directory" using Cons.prems(4) by (rule dirsExist_here)
  show ?case
  proof (cases "cs = []")
    case True
    then have "named c" "c \<noteq> ''..''" using Cons.prems(1,3) by auto
    then show ?thesis using True here by (simp add: named_def)
  next
    case False
    then have last: "named (last cs)" using Cons.prems(3) by simp
    then have ne: "filter named cs \<noteq> []" using False
      by (metis filter_empty_conv last_in_set)
    have nd: "''..'' \<notin> set cs" "c \<noteq> ''..''" using Cons.prems(1) by auto
    show ?thesis
    proof (cases "named c")
      case True
      then have "dirsExist s (cur @ [c]) (butlast (filter named cs))"
        using Cons.prems(4) ne by simp
      from Cons.IH [OF nd(1) False last this] show ?thesis
        using True nd(2) here by (simp add: named_def)
    next
      case False
      then have "dirsExist s cur (butlast (filter named cs))" using Cons.prems(4) by simp
      from Cons.IH [OF nd(1) \<open>cs \<noteq> []\<close> last this] show ?thesis
        using False here by (auto simp: named_def)
    qed
  qed
qed

lemma saveToFile_fresh:
  assumes m: "MkdirAll (Dir p) s = (None, s1)"
    and r: "resolve s1 p = Inr l" and l: "l \<noteq> []" and n: "nodes s1 l = None"
    and e: "refuses s1 = (\<lambda>c l. None)"
  shows "\<exists>s'. saveToFile j p s = (None, s')
           \<and> s' = s1\<lparr>nodes := (nodes s1)(l \<mapsto> Regular (arrayText [indented j ''  '' ''  '']))\<rparr>"
proof -
  let ?s2 = "s1\<lparr>nodes := (nodes s1)(l \<mapsto> Regular [])\<rparr>"
  let ?f = "\<lparr>name = p, loc = l, pos = 0\<rparr>"
  have na: "nodeAt s1 l = None" using l n by (simp add: nodeAt_def)
  have ex: "\<not> fileExists p s1" using r na by (simp add: fileExists_def Stat_def)
  have cr: "Create p s1 = (Inr ?f, ?s2)" using r na e by (simp add: Create_def)
  have "dirsKept s1 ?s2" using l n by (intro dirsKept_store) simp_all
  with r have r2: "resolve ?s2 p = Inr l" by (rule resolve_dirsKept [rotated])
  have op: "OpenFile p ?s2 = Inr ?f" using r2 l e by (simp add: OpenFile_def nodeAt_def)
  have sz: "Size ?f ?s2 = Inr 0" using e by (simp add: Size_def contents_def)
  have wr: "WriteString ?f (''['' @ [newline] @ ''  '' @ indented j ''  '' ''  '' @ [newline] @ '']'') ?s2
            = (None, ?f\<lparr>pos := length (''['' @ [newline] @ ''  '' @ indented j ''  '' ''  '' @ [newline] @ '']'')\<rparr>,
               s1\<lparr>nodes := (nodes s1)(l \<mapsto> Regular (arrayText [indented j ''  '' ''  '']))\<rparr>)"
    using e by (simp add: WriteString_def contents_def arrayText_def)
  show ?thesis
    unfolding saveToFile_def m using ex cr op sz wr
    by (simp add: MarshalIndent_def del: append.simps)
qed

lemma filter_last:
  "xs \<noteq> [] \<Longrightarrow> P (last xs) \<Longrightarrow> filter P xs = filter P (butlast xs) @ [last xs]"
  by (induction xs) auto

lemma walk_append:
  "walk s cur (xs @ ys) = (case walk s cur xs of Inl e \<Rightarrow> Inl e | Inr l \<Rightarrow> walk s l ys)"
  by (induction xs arbitrary: cur) (auto split: option.splits node.splits)

lemma walk_empties:
  "\<forall>c\<in>set cs. c = [] \<Longrightarrow> nodeAt s cur = Some Directory \<Longrightarrow> walk s cur cs = Inr cur"
  by (induction cs) auto

lemma trailing_empties:
  fixes cs :: "string list"
  obtains k where "cs = rev (dropWhile (\<lambda>c. c = []) (rev cs)) @ replicate k []"
proof -
  let ?P = "\<lambda>c :: string. c = []"
  have "rev cs = takeWhile ?P (rev cs) @ dropWhile ?P (rev cs)" by simp
  then have "rev (rev cs) = rev (takeWhile ?P (rev cs) @ dropWhile ?P (rev cs))"
    by (rule arg_cong)
  then have 1: "cs = rev (dropWhile ?P (rev cs)) @ rev (takeWhile ?P (rev cs))"
    by (simp only: rev_rev_ident rev_append)
  have "\<forall>c\<in>set (rev (takeWhile ?P (rev cs))). c = []"
    using set_takeWhileD [of _ ?P "rev cs"] by auto
  then have "rev (takeWhile ?P (rev cs)) = replicate (length (rev (takeWhile ?P (rev cs)))) []"
    by (intro replicate_length_same [symmetric]) 
  with 1 have "cs = rev (dropWhile ?P (rev cs)) @ replicate (length (rev (takeWhile ?P (rev cs)))) []"
    by simp
  then show ?thesis by (rule that)
qed

lemma last_kept:
  fixes cs :: "string list"
  assumes "rev (dropWhile (\<lambda>c. c = []) (rev cs)) \<noteq> []"
  shows "last (rev (dropWhile (\<lambda>c. c = []) (rev cs))) \<noteq> []"
proof -
  from assms have ne: "dropWhile (\<lambda>c. c = []) (rev cs) \<noteq> []" by simp
  then have "hd (dropWhile (\<lambda>c. c = []) (rev cs)) \<noteq> []" by (rule hd_dropWhile)
  then show ?thesis using ne by (simp add: last_rev)
qed

lemma Mkdir_ok:
  assumes "Mkdir nm s = (None, s')"
  obtains cur cs c k where "nm \<noteq> []" "Split nm = cs @ [c] @ replicate k []"
    "walk s (if rooted nm then [] else cwd s) cs = Inr cur"
    "nodeAt s cur = Some Directory" "c \<noteq> []" "c \<noteq> ''.''" "c \<noteq> ''..''"
    "nodeAt s (cur @ [c]) = None" "refuses s SysMkdir (cur @ [c]) = None"
    "s' = s\<lparr>nodes := (nodes s)(cur @ [c] \<mapsto> Directory)\<rparr>"
proof -
  define es where "es = rev (dropWhile (\<lambda>c. c = []) (rev (Split nm)))"
  obtain k where k: "Split nm = es @ replicate k []"
    unfolding es_def by (rule trailing_empties)
  from assms have ne: "nm \<noteq> []" "es \<noteq> []"
    by (auto simp: Mkdir_def Let_def es_def split: if_splits)
  from assms ne obtain cur where
    w: "walk s (if rooted nm then [] else cwd s) (butlast es) = Inr cur"
    by (cases "walk s (if rooted nm then [] else cwd s) (butlast es)")
       (auto simp: Mkdir_def Let_def es_def split: if_splits)
  from assms ne w have d: "nodeAt s cur = Some Directory"
    by (auto simp: Mkdir_def Let_def es_def split: if_splits option.splits node.splits)
  from assms ne w d have c: "last es \<noteq> ''.''" "last es \<noteq> ''..''"
    "nodeAt s (cur @ [last es]) = None" "refuses s SysMkdir (cur @ [last es]) = None"
    "s' = s\<lparr>nodes := (nodes s)(cur @ [last es] \<mapsto> Directory)\<rparr>"
    by (auto simp: Mkdir_def Let_def es_def split: if_splits option.splits node.splits)
  have l: "last es \<noteq> []" using ne(2) unfolding es_def by (rule last_kept)
  have "es = butlast es @ [last es]" using ne(2) by simp
  then have "Split nm = butlast es @ [last es] @ replicate k []" using k by simp
  from that [OF ne(1) this w d l c] show ?thesis .
qed

lemma Mkdir_dir:
  assumes "Mkdir nm s = (None, s')"
  shows "Stat nm s' = Inr Directory"
proof -
  let ?base = "if rooted nm then [] else cwd s"
  from assms obtain cur cs c k where ne: "nm \<noteq> []"
    and sp: "Split nm = cs @ [c] @ replicate k []"
    and w: "walk s ?base cs = Inr cur"
    and d: "nodeAt s cur = Some Directory" and n: "c \<noteq> []" "c \<noteq> ''.''" "c \<noteq> ''..''"
    and free: "nodeAt s (cur @ [c]) = None"
    and s': "s' = s\<lparr>nodes := (nodes s)(cur @ [c] \<mapsto> Directory)\<rparr>"
    by (rule Mkdir_ok)
  from Mkdir_keeps [OF assms] have keep: "dirsKept s s'" by simp
  then have cw: "cwd s' = cwd s" by (simp add: dirsKept_def)
  from keep w have w': "walk s' ?base cs = Inr cur" by (rule walk_dirsKept)
  from keep d have d': "nodeAt s' cur = Some Directory" by (simp add: dirsKept_def)
  have m: "nodeAt s' (cur @ [c]) = Some Directory" unfolding s' by (simp add: nodeAt_def)
  have "walk s' cur ([c] @ replicate k []) = walk s' (cur @ [c]) (replicate k [])"
    using d' n by simp
  also have "\<dots> = Inr (cur @ [c])" using m by (intro walk_empties) simp_all
  finally have "walk s' ?base (Split nm) = Inr (cur @ [c])"
    unfolding sp using w' by (simp only: walk_append sum.case)
  then have "resolve s' nm = Inr (cur @ [c])" using ne cw
    by (cases "rooted nm") (simp_all add: resolve_def)
  then show ?thesis using m by (simp add: Stat_def)
qed

lemma MkdirAll_dir:
  assumes "MkdirAll p s = (None, s')"
  shows "Stat p s' = Inr Directory"
proof (cases "Stat p s")
  case (Inr n)
  with assms show ?thesis by (cases n) (simp_all add: MkdirAll.simps [of p s])
next
  case (Inl e)
  obtain r1 s1 where p: "(if 1 < elementStart p
                 then MkdirAll (take (elementStart p - 1) p) s
                 else (None, s)) = (r1, s1)"
    by (cases "if 1 < elementStart p
                 then MkdirAll (take (elementStart p - 1) p) s
                 else (None, s)")
  obtain r2 s2 where m: "Mkdir p s1 = (r2, s2)" by (cases "Mkdir p s1")
  from assms Inl p have r1: "r1 = None" by (cases r1) (simp_all add: MkdirAll.simps [of p s])
  show ?thesis
  proof (cases r2)
    case None
    with assms Inl p r1 m have "s' = s2" by (simp add: MkdirAll.simps [of p s])
    with m None show ?thesis using Mkdir_dir by simp
  next
    case (Some err)
    with assms Inl p r1 m show ?thesis
      by (auto simp: MkdirAll.simps [of p s] split: sum.splits node.splits)
  qed
qed

lemma MkdirAll_again:
  assumes "MkdirAll d s = (None, s')"
  shows "MkdirAll d s' = (None, s')"
  using MkdirAll_dir [OF assms] by (simp add: MkdirAll.simps [of d s'])

lemma elementStart_last:
  assumes "m \<noteq> []" "CHR ''/'' \<notin> set m" "q = [] \<or> last q = CHR ''/''"
  shows "elementStart (q @ m) = length q"
proof -
  have 1: "dropWhile (\<lambda>c. c = CHR ''/'') (rev m @ rev q) = rev m @ rev q"
    using assms(1,2) by (cases "rev m") (auto simp: rev_eq_Cons_iff)
  have 2: "dropWhile (\<lambda>c. c \<noteq> CHR ''/'') (rev m @ rev q) = dropWhile (\<lambda>c. c \<noteq> CHR ''/'') (rev q)"
    using assms(2) by (intro dropWhile_append2) auto
  have 3: "dropWhile (\<lambda>c. c \<noteq> CHR ''/'') (rev q) = rev q"
    using assms(3) by (cases "rev q") (auto simp: rev_eq_Cons_iff)
  show ?thesis by (simp add: elementStart_def 1 2 3)
qed

lemma clearWay_prefix: "clearWay s cur (as @ bs) \<Longrightarrow> clearWay s cur as"
  by (induction as arbitrary: cur) (auto split: option.splits node.splits)

lemma clearWay_last: "clearWay s cur (es @ [x]) \<Longrightarrow> nodeAt s (cur @ es) \<noteq> Some (Regular d)"
proof (induction es arbitrary: cur)
  case Nil
  then show ?case by (auto split: option.splits node.splits)
next
  case (Cons e es)
  then have "clearWay s (cur @ [e]) (es @ [x])" by (auto split: option.splits node.splits)
  then have "nodeAt s ((cur @ [e]) @ es) \<noteq> Some (Regular d)" by (rule Cons.IH)
  then show ?case by simp
qed

lemma dirsExist_snoc:
  "dirsExist s cur (es @ [m])
     \<longleftrightarrow> dirsExist s cur es \<and> nodeAt s (cur @ es @ [m]) = Some Directory"
proof (induction es arbitrary: cur)
  case Nil
  then show ?case by simp
next
  case (Cons e es)
  from Cons.IH [of "cur @ [e]"] show ?case by auto
qed

lemma dirsExist_last: "dirsExist s cur es \<Longrightarrow> nodeAt s (cur @ es) = Some Directory"
proof (induction es arbitrary: cur)
  case Nil
  then show ?case by simp
next
  case (Cons e es)
  then have "dirsExist s (cur @ [e]) es" by simp
  then have "nodeAt s ((cur @ [e]) @ es) = Some Directory" by (rule Cons.IH)
  then show ?case by simp
qed

lemma walk_dirsExist:
  "\<forall>e\<in>set es. named e \<and> e \<noteq> ''..'' \<Longrightarrow> dirsExist s cur es \<Longrightarrow> walk s cur es = Inr (cur @ es)"
proof (induction es arbitrary: cur)
  case Nil
  then show ?case by simp
next
  case (Cons e es)
  from Cons.prems have "walk s (cur @ [e]) es = Inr ((cur @ [e]) @ es)"
    by (intro Cons.IH) simp_all
  with Cons.prems show ?case by (simp add: named_def)
qed

lemma walk_named:
  assumes "\<forall>e\<in>set es. named e \<and> e \<noteq> ''..''" "walk s cur (es @ [m]) = Inr l"
    "named m" "m \<noteq> ''..''"
  shows "l = cur @ es @ [m] \<and> dirsExist s cur es"
  using assms(1,2)
proof (induction es arbitrary: cur)
  case Nil
  then show ?case using assms(3,4)
    by (auto simp: named_def split: option.splits node.splits if_splits)
next
  case (Cons e es)
  from Cons.prems(2) have d: "nodeAt s cur = Some Directory"
    by (auto split: option.splits node.splits)
  from Cons.prems(1) have e: "e \<noteq> []" "e \<noteq> ''.''" "e \<noteq> ''..''" by (auto simp: named_def)
  from Cons.prems(2) d e have "walk s (cur @ [e]) (es @ [m]) = Inr l" by simp
  with Cons.prems(1) have "l = (cur @ [e]) @ es @ [m] \<and> dirsExist s (cur @ [e]) es"
    by (intro Cons.IH) simp_all
  with d show ?case by simp
qed

lemma plain_path:
  assumes el: "\<forall>e\<in>set es. named e \<and> CHR ''/'' \<notin> set e" and ne: "es \<noteq> []"
    and pre: "pre = [] \<or> pre = ''/''"
  shows "pre @ Join es ''/'' \<noteq> []"
    and "rooted (pre @ Join es ''/'') \<longleftrightarrow> pre \<noteq> []"
    and "Split (pre @ Join es ''/'') = (if pre = [] then es else [] # es)"
proof -
  from Join_named_head [OF ne el] have j: "Join es ''/'' \<noteq> []" "\<not> rooted (Join es ''/'')"
    by simp_all
  have sp: "Split (Join es ''/'') = es" using ne el by (intro Split_Join) auto
  show "pre @ Join es ''/'' \<noteq> []" using j by simp
  show "rooted (pre @ Join es ''/'') \<longleftrightarrow> pre \<noteq> []"
    using pre j by (auto simp: rooted_simps)
  show "Split (pre @ Join es ''/'') = (if pre = [] then es else [] # es)"
    using pre sp by auto
qed

lemma plain_resolve:
  assumes el: "\<forall>e\<in>set es. named e \<and> CHR ''/'' \<notin> set e" and ne: "es \<noteq> []"
    and pre: "pre = [] \<or> pre = ''/''"
  shows "resolve s (pre @ Join es ''/'') = walk s (if pre = [] then cwd s else []) es"
proof (cases "pre = []")
  case True
  with plain_path [OF el ne pre] show ?thesis by (simp add: resolve_def)
next
  case False
  have "nodeAt s [] = Some Directory" by (simp add: nodeAt_def)
  with False plain_path [OF el ne pre] show ?thesis by (simp add: resolve_def)
qed

lemma plain_parent:
  assumes el: "\<forall>e\<in>set (ms @ [m]). named e \<and> CHR ''/'' \<notin> set e"
    and pre: "pre = [] \<or> pre = ''/''"
  shows "ms = [] \<Longrightarrow> \<not> 1 < elementStart (pre @ Join (ms @ [m]) ''/'')"
    and "ms \<noteq> [] \<Longrightarrow> 1 < elementStart (pre @ Join (ms @ [m]) ''/'')"
    and "ms \<noteq> [] \<Longrightarrow> take (elementStart (pre @ Join (ms @ [m]) ''/'') - 1) (pre @ Join (ms @ [m]) ''/'')
                      = pre @ Join ms ''/''"
proof -
  from el have m: "m \<noteq> []" "CHR ''/'' \<notin> set m" by (auto simp: named_def)
  show "\<not> 1 < elementStart (pre @ Join (ms @ [m]) ''/'')" if "ms = []"
  proof -
    have "elementStart (pre @ m) = length pre" using m pre by (intro elementStart_last) auto
    then show ?thesis using that pre by auto
  qed
  assume ne: "ms \<noteq> []"
  from el have elms: "\<forall>e\<in>set ms. named e \<and> CHR ''/'' \<notin> set e" by simp
  from Join_named_head [OF ne elms] have j: "Join ms ''/'' \<noteq> []" by simp
  have p: "pre @ Join (ms @ [m]) ''/'' = (pre @ Join ms ''/'' @ ''/'') @ m"
    using ne by (simp add: Join_append_last)
  have e: "elementStart ((pre @ Join ms ''/'' @ ''/'') @ m) = length (pre @ Join ms ''/'' @ ''/'')"
    using m by (intro elementStart_last) simp_all
  show "1 < elementStart (pre @ Join (ms @ [m]) ''/'')"
    unfolding p e using j by (cases "Join ms ''/''") simp_all
  show "take (elementStart (pre @ Join (ms @ [m]) ''/'') - 1) (pre @ Join (ms @ [m]) ''/'')
          = pre @ Join ms ''/''"
    unfolding p e by simp
qed

lemma Mkdir_path:
  assumes el: "\<forall>e\<in>set (ms @ [m]). named e \<and> e \<noteq> ''..'' \<and> CHR ''/'' \<notin> set e"
    and pre: "pre = [] \<or> pre = ''/''"
    and dirs: "dirsExist s (if pre = [] then cwd s else []) ms"
  shows "Mkdir (pre @ Join (ms @ [m]) ''/'') s
         = (case nodeAt s ((if pre = [] then cwd s else []) @ ms @ [m]) of
              Some n \<Rightarrow> (Some (PathError ''mkdir'' (pre @ Join (ms @ [m]) ''/'') EEXIST), s)
            | None \<Rightarrow>
                (case refuses s SysMkdir ((if pre = [] then cwd s else []) @ ms @ [m]) of
                   Some e \<Rightarrow> (Some (PathError ''mkdir'' (pre @ Join (ms @ [m]) ''/'') e), s)
                 | None \<Rightarrow>
                     (None, s\<lparr>nodes := (nodes s)((if pre = [] then cwd s else []) @ ms @ [m]
                                          \<mapsto> Directory)\<rparr>)))"
proof -
  let ?path = "pre @ Join (ms @ [m]) ''/''"
  let ?base = "if pre = [] then cwd s else []"
  from el have el': "\<forall>e\<in>set (ms @ [m]). named e \<and> CHR ''/'' \<notin> set e" by simp
  from el have m: "m \<noteq> []" "m \<noteq> ''.''" "m \<noteq> ''..''" by (auto simp: named_def)
  from el have elms: "\<forall>e\<in>set ms. named e \<and> e \<noteq> ''..''" by simp
  note pp = plain_path [OF el' _ pre]
  have ne: "?path \<noteq> []" by (rule pp) simp
  have r: "rooted ?path \<longleftrightarrow> pre \<noteq> []" by (rule pp) simp
  have sp: "Split ?path = (if pre = [] then [] else [[]]) @ ms @ [m]"
    using pp(3) by simp
  have cs: "rev (dropWhile (\<lambda>c. c = []) (rev (Split ?path))) = (if pre = [] then [] else [[]]) @ ms @ [m]"
    unfolding sp using m(1) by simp
  have "nodeAt s [] = Some Directory" by (simp add: nodeAt_def)
  then have "walk s (if rooted ?path then [] else cwd s) ((if pre = [] then [] else [[]]) @ ms)
        = walk s ?base ms"
    unfolding r by simp
  also have "\<dots> = Inr (?base @ ms)" using elms dirs by (rule walk_dirsExist)
  finally have w: "walk s (if rooted ?path then [] else cwd s)
        (butlast ((if pre = [] then [] else [[]]) @ ms @ [m])) = Inr (?base @ ms)"
    by (simp add: butlast_append)
  have d: "nodeAt s (?base @ ms) = Some Directory" using dirs by (rule dirsExist_last)
  have l: "last ((if pre = [] then [] else [[]]) @ ms @ [m]) = m" by simp
  have n: "(if pre = [] then [] else [[]]) @ ms @ [m] \<noteq> []" by simp
  show ?thesis
    unfolding Mkdir_def Let_def cs
    by (simp only: ne n w d l m if_False sum.case option.case node.case simp_thms append_assoc)
qed

lemma MkdirAll_step:
  assumes el: "\<forall>e\<in>set (ms @ [m]). named e \<and> e \<noteq> ''..'' \<and> CHR ''/'' \<notin> set e"
    and pre: "pre = [] \<or> pre = ''/''"
    and base: "base = (if pre = [] then cwd s else [])"
    and parent: "(if 1 < elementStart (pre @ Join (ms @ [m]) ''/'')
                  then MkdirAll (take (elementStart (pre @ Join (ms @ [m]) ''/'') - 1)
                                   (pre @ Join (ms @ [m]) ''/'')) s
                  else (None, s)) = (None, s1)"
    and keep: "dirsKept s s1" "refuses s1 = refuses s"
    and dirs: "dirsExist s1 base ms"
    and far: "\<forall>l. length base + length ms < length l \<longrightarrow> nodes s1 l = nodes s l"
    and free: "\<And>d. nodeAt s (base @ ms @ [m]) \<noteq> Some (Regular d)"
    and quiet: "\<forall>l. refuses s SysMkdir l = None"
  shows "\<exists>s'. MkdirAll (pre @ Join (ms @ [m]) ''/'') s = (None, s') \<and> dirsExist s' base (ms @ [m])
           \<and> (\<forall>l. length base + length (ms @ [m]) < length l \<longrightarrow> nodes s' l = nodes s l)"
proof -
  let ?path = "pre @ Join (ms @ [m]) ''/''"
  let ?l = "base @ ms @ [m]"
  from el have el': "\<forall>e\<in>set (ms @ [m]). named e \<and> CHR ''/'' \<notin> set e" by simp
  from el have elms: "\<forall>e\<in>set ms. named e \<and> e \<noteq> ''..''" and m: "named m" "m \<noteq> ''..''"
    by simp_all
  have res: "resolve t ?path = walk t (if pre = [] then cwd t else []) (ms @ [m])" for t
    by (rule plain_resolve [OF el' _ pre]) simp
  have cw: "cwd s1 = cwd s" using keep(1) by (simp add: dirsKept_def)
  have base1: "base = (if pre = [] then cwd s1 else [])" using base cw by simp
  show ?thesis
  proof (cases "Stat ?path s")
    case (Inr n)
    then obtain l where l: "resolve s ?path = Inr l" "nodeAt s l = Some n"
      by (auto simp: Stat_def split: sum.splits option.splits)
    from l(1) have "walk s base (ms @ [m]) = Inr l" unfolding res base by simp
    from walk_named [OF elms this m] have w: "l = ?l" "dirsExist s base ms" by simp_all
    from l(2) w(1) free have n: "n = Directory" by (cases n) auto
    with Inr have "MkdirAll ?path s = (None, s)" by (simp add: MkdirAll.simps [of ?path s])
    moreover have "dirsExist s base (ms @ [m])"
      using w l(2) n by (simp add: dirsExist_snoc)
    ultimately show ?thesis by simp
  next
    case (Inl e)
    have n1: "nodeAt s1 ?l = nodeAt s ?l" using far by (simp add: nodeAt_def)
    have mk: "Mkdir ?path s1
         = (case nodeAt s1 ?l of
              Some n \<Rightarrow> (Some (PathError ''mkdir'' ?path EEXIST), s1)
            | None \<Rightarrow>
                (case refuses s1 SysMkdir ?l of
                   Some e \<Rightarrow> (Some (PathError ''mkdir'' ?path e), s1)
                 | None \<Rightarrow> (None, s1\<lparr>nodes := (nodes s1)(?l \<mapsto> Directory)\<rparr>)))"
      unfolding base1 by (rule Mkdir_path [OF el pre]) (use dirs base1 in simp)
    have all: "MkdirAll ?path s
         = (case Mkdir ?path s1 of
              (None, s2) \<Rightarrow> (None, s2)
            | (Some err, s2) \<Rightarrow>
                (case Stat ?path s2 of Inr Directory \<Rightarrow> (None, s2) | _ \<Rightarrow> (Some err, s2)))"
      using Inl parent by (simp add: MkdirAll.simps [of ?path s])
    show ?thesis
    proof (cases "nodeAt s ?l")
      case None
      let ?s2 = "s1\<lparr>nodes := (nodes s1)(?l \<mapsto> Directory)\<rparr>"
      have "Mkdir ?path s1 = (None, ?s2)"
        unfolding mk n1 None using quiet keep(2) by simp
      then have 1: "MkdirAll ?path s = (None, ?s2)" unfolding all by simp
      have k2: "dirsKept s1 ?s2" by (auto simp: dirsKept_def nodeAt_def)
      have 2: "dirsExist ?s2 base (ms @ [m])"
        using dirsExist_later [OF k2 dirs] by (simp add: dirsExist_snoc nodeAt_def)
      have 3: "\<forall>l. length base + length (ms @ [m]) < length l \<longrightarrow> nodes ?s2 l = nodes s l"
        using far by auto
      from 1 2 3 show ?thesis by blast
    next
      case (Some n)
      with free have n: "nodeAt s ?l = Some Directory" by (cases n) auto
      have "Mkdir ?path s1 = (Some (PathError ''mkdir'' ?path EEXIST), s1)"
        unfolding mk n1 n by simp
      moreover have "Stat ?path s1 = Inr Directory"
      proof -
        have d: "dirsExist s1 base (ms @ [m])" using dirs n n1 by (simp add: dirsExist_snoc)
        have "walk s1 base (ms @ [m]) = Inr ?l"
          using walk_dirsExist [of "ms @ [m]" s1 base] elms m d by simp
        then have "resolve s1 ?path = Inr ?l" unfolding res base1 by simp
        then show ?thesis using n n1 by (simp add: Stat_def)
      qed
      ultimately have 1: "MkdirAll ?path s = (None, s1)" unfolding all by simp
      have 2: "dirsExist s1 base (ms @ [m])" using dirs n n1 by (simp add: dirsExist_snoc)
      have 3: "\<forall>l. length base + length (ms @ [m]) < length l \<longrightarrow> nodes s1 l = nodes s l"
        using far by auto
      from 1 2 3 show ?thesis by blast
    qed
  qed
qed

lemma MkdirAll_path:
  assumes ne: "es \<noteq> []"
    and el: "\<forall>e\<in>set es. named e \<and> e \<noteq> ''..'' \<and> CHR ''/'' \<notin> set e"
    and pre: "pre = [] \<or> pre = ''/''"
    and base: "base = (if pre = [] then cwd s else [])"
    and here: "nodeAt s base = Some Directory"
    and way: "clearWay s base (es @ [x])"
    and quiet: "\<forall>l. refuses s SysMkdir l = None"
  shows "\<exists>s'. MkdirAll (pre @ Join es ''/'') s = (None, s') \<and> dirsExist s' base es
           \<and> (\<forall>l. length base + length es < length l \<longrightarrow> nodes s' l = nodes s l)"
  using ne el way
proof (induction es arbitrary: x rule: rev_nonempty_induct)
  case (single m)
  have free: "\<And>d. nodeAt s (base @ [] @ [m]) \<noteq> Some (Regular d)"
    using clearWay_last [OF single.prems(2)] by simp
  have el1: "\<forall>e\<in>set ([] @ [m]). named e \<and> e \<noteq> ''..'' \<and> CHR ''/'' \<notin> set e"
    using single.prems(1) by simp
  then have el1': "\<forall>e\<in>set ([] @ [m]). named e \<and> CHR ''/'' \<notin> set e" by simp
  have parent: "(if 1 < elementStart (pre @ Join ([] @ [m]) ''/'')
                  then MkdirAll (take (elementStart (pre @ Join ([] @ [m]) ''/'') - 1)
                                   (pre @ Join ([] @ [m]) ''/'')) s
                  else (None, s)) = (None, s)"
    using plain_parent(1) [OF el1' pre refl] by simp
  from MkdirAll_step [OF el1 pre base parent dirsKept_refl refl _ _ free quiet]
  show ?case using here by simp
next
  case (snoc m ms)
  from snoc.prems(1) have elms: "\<forall>e\<in>set ms. named e \<and> e \<noteq> ''..'' \<and> CHR ''/'' \<notin> set e"
    by simp
  from snoc.prems(2) have "clearWay s base (ms @ [m])"
    using clearWay_prefix [of s base "ms @ [m]" "[x]"] by simp
  from snoc.IH [OF elms this] obtain s1 where
    s1: "MkdirAll (pre @ Join ms ''/'') s = (None, s1)" "dirsExist s1 base ms"
      "\<forall>l. length base + length ms < length l \<longrightarrow> nodes s1 l = nodes s l"
    by blast
  from MkdirAll_keeps [OF s1(1)] have keep: "dirsKept s s1" "refuses s1 = refuses s" by simp_all
  have free: "\<And>d. nodeAt s (base @ ms @ [m]) \<noteq> Some (Regular d)"
    using clearWay_last [OF snoc.prems(2)] by simp
  from snoc.prems(1) have el': "\<forall>e\<in>set (ms @ [m]). named e \<and> CHR ''/'' \<notin> set e" by simp
  have parent: "(if 1 < elementStart (pre @ Join (ms @ [m]) ''/'')
                  then MkdirAll (take (elementStart (pre @ Join (ms @ [m]) ''/'') - 1)
                                   (pre @ Join (ms @ [m]) ''/'')) s
                  else (None, s)) = (None, s1)"
    using plain_parent(2,3) [OF el' pre snoc.hyps] s1(1) by simp
  from MkdirAll_step [OF snoc.prems(1) pre base parent keep s1(2,3) free quiet]
  show ?case .
qed

lemma Dir_form:
  assumes "''..'' \<notin> set (Split p)" "p \<noteq> []"
  shows "Dir p = (if rooted p then CHR ''/'' # Join (filter named (butlast (Split p))) ''/''
                  else if filter named (butlast (Split p)) = [] then ''.''
                  else Join (filter named (butlast (Split p))) ''/'')"
proof (cases p rule: dirPart_cases)
  case none
  have "Clean [] = ''.''" by (simp add: Clean_def rooted_simps)
  then have d: "Dir p = ''.''" by (simp only: Dir_def none(1))
  have r: "\<not> rooted p" using none(2) assms(2) by (cases p) (auto simp: rooted_simps)
  have s: "Split p = [p]" using none(2) by (rule Split_no_slash)
  show ?thesis unfolding d s using r by simp
next
  case (some q e)
  have sp: "Split p = Split q @ [e]"
    unfolding some(2) using some(3) by (rule Split_last_elem)
  have bl: "butlast (Split p) = Split q" unfolding sp by simp
  have nodots: "''..'' \<notin> set (Split q)" using assms(1) unfolding sp by simp
  have r: "rooted (q @ ''/'') = rooted p" unfolding some(2) by (rule rooted_dirPart)
  show ?thesis
    unfolding bl using Clean_plain [OF nodots] by (simp only: Dir_def some(1) r)
qed

lemma MkdirAll_Dir_makes:
  assumes a1: "''..'' \<notin> set (Split p)" and ne: "p \<noteq> []"
    and base: "base = (if rooted p then [] else cwd s)"
    and here: "nodeAt s base = Some Directory"
    and way: "clearWay s base (filter named (butlast (Split p)) @ [x])"
    and quiet: "\<forall>l. refuses s SysMkdir l = None"
  shows "\<exists>s'. MkdirAll (Dir p) s = (None, s') \<and> dirsExist s' base (filter named (butlast (Split p)))
           \<and> (\<forall>l. length base + length (filter named (butlast (Split p))) < length l
                  \<longrightarrow> nodes s' l = nodes s l)"
proof -
  let ?dn = "filter named (butlast (Split p))"
  note form = Dir_form [OF a1 ne]
  show ?thesis
  proof (cases "?dn = []")
    case True
    have "Stat (Dir p) s = Inr Directory"
    proof (cases "rooted p")
      case True
      with form \<open>?dn = []\<close> have "Dir p = ''/''" by simp
      then show ?thesis by (simp add: Stat_def resolve_def rooted_simps nodeAt_def)
    next
      case False
      with form \<open>?dn = []\<close> have "Dir p = ''.''" by simp
      then show ?thesis using here base False
        by (simp add: Stat_def resolve_def rooted_simps)
    qed
    then have "MkdirAll (Dir p) s = (None, s)" by (simp add: MkdirAll.simps [of "Dir p" s])
    then show ?thesis using True here by simp
  next
    case False
    define pre where "pre = (if rooted p then ''/'' else [])"
    have d: "Dir p = pre @ Join ?dn ''/''" using form False by (simp add: pre_def)
    have pre: "pre = [] \<or> pre = ''/''" by (simp add: pre_def)
    have b: "base = (if pre = [] then cwd s else [])" using base by (simp add: pre_def)
    have el: "\<forall>e\<in>set ?dn. named e \<and> e \<noteq> ''..'' \<and> CHR ''/'' \<notin> set e"
    proof
      fix e assume "e \<in> set ?dn"
      then have e: "named e" "e \<in> set (Split p)" by (auto dest: in_set_butlastD)
      with a1 Split_elems [of e p] show "named e \<and> e \<noteq> ''..'' \<and> CHR ''/'' \<notin> set e" by auto
    qed
    from MkdirAll_path [OF False el pre b here way quiet] show ?thesis unfolding d .
  qed
qed

text \<open>
  Claim C9, as stated, fails: where the parent directories are missing and may not be made,
  as for the package's own test 6 run by an unprivileged user, \<open>saveToFile\<close> returns
  the error of the directory creation and appends nothing.
\<close>
theorem missing_directories_refused:
  "nodeAt readOnlyRoot [''invalid''] = None
   \<and> nodeAt readOnlyRoot [''invalid'', ''path''] = None
   \<and> fst (saveToFile (recordOf INFO zeroOptions exampleClock ''Test 6: Error handling test'')
             ''/invalid/path/test.json'' readOnlyRoot)
       = Some ''directory creation failed, mkdir /invalid: permission denied''"
  by code_simp

lemma made_from_base:
  assumes bs: "(if rooted filePath then [] else cwd s) = base"
    and a1: "''..'' \<notin> set (Split filePath)"
    and a2: "named (last (Split filePath))"
    and a3: "nodeAt s base = Some Directory"
    and a4: "clearWay s base (filter named (Split filePath))"
    and a5: "nodeAt s (base @ filter named (Split filePath)) = None"
    and a6: "refuses s = (\<lambda>c l. None)"
  shows "\<exists>s1 s'. MkdirAll (Dir filePath) s = (None, s1) \<and> saveToFile j filePath s = (None, s')
           \<and> dirsExist s' base (butlast (filter named (Split filePath)))
           \<and> ReadFile filePath s' = Inr (arrayText [indented j ''  '' ''  ''])
           \<and> dirsKept s s' \<and> filesKept s s'"
proof -
  let ?comps = "Split filePath"
  let ?dn = "filter named (butlast ?comps)"
  let ?file = "last ?comps"
  have ne: "filePath \<noteq> []" using a2 by (auto simp: named_def)
  have names: "filter named ?comps = ?dn @ [?file]"
    using Split_not_Nil a2 by (rule filter_last)
  have dn: "\<forall>c\<in>set ?dn. named c \<and> c \<noteq> ''..''"
    using a1 by (auto dest: in_set_butlastD)
  have way: "clearWay s base (?dn @ [?file])" using a4 names by simp
  have quiet: "\<forall>l. refuses s SysMkdir l = None" using a6 by simp
  from MkdirAll_Dir_makes [OF a1 ne bs [symmetric] a3 way quiet] obtain s1 where
    m: "MkdirAll (Dir filePath) s = (None, s1)" and de: "dirsExist s1 base ?dn"
    and far: "\<forall>l. length base + length ?dn < length l \<longrightarrow> nodes s1 l = nodes s l" by blast
  from MkdirAll_keeps [OF m] have k1: "dirsKept s s1" "filesKept s s1" "refuses s1 = refuses s"
    by simp_all
  have c1: "cwd s1 = cwd s" using k1(1) by (simp add: dirsKept_def)
  let ?l = "base @ filter named ?comps"
  have w: "walk s1 base ?comps = Inr ?l"
    using a1 _ a2 by (rule walk_plain) (simp_all add: names de)
  have "resolve s1 filePath = walk s1 (if rooted filePath then [] else cwd s) ?comps"
    using ne by (simp only: resolve_def c1 if_False)
  then have r: "resolve s1 filePath = Inr ?l" unfolding bs using w by simp
  have l: "?l \<noteq> []" using names by simp
  have "nodes s ?l = None" using a5 l by (simp only: nodeAt_def if_False)
  moreover have "length base + length ?dn < length ?l" using names by simp
  ultimately have n: "nodes s1 ?l = None" using far by simp
  have e: "refuses s1 = (\<lambda>c l. None)" using k1(3) a6 by simp
  from saveToFile_fresh [OF m r l n e, of j] obtain s' where
    sv: "saveToFile j filePath s = (None, s')"
    and s': "s' = s1\<lparr>nodes := (nodes s1)(?l \<mapsto> Regular (arrayText [indented j ''  '' ''  '']))\<rparr>"
    by blast
  have k2: "dirsKept s1 s'" unfolding s' using l n by (intro dirsKept_store) simp_all
  have "dirsExist s' base (butlast (filter named ?comps))"
    using dirsExist_later [OF k2 de] names by simp
  moreover have "ReadFile filePath s' = Inr (arrayText [indented j ''  '' ''  ''])"
  proof -
    have "nodeAt s1 ?l = None" using l n by (simp only: nodeAt_def if_False)
    then have "absent filePath s" using m r by (simp add: absent_def fileExists_def Stat_def)
    then have "absent filePath s \<or> ReadFile filePath s = Inr []" by simp
    then show ?thesis using sv by (rule saveToFile_first)
  qed
  moreover have "dirsKept s s'" using k1(1) k2 by (rule dirsKept_trans)
  moreover have "filesKept s s'"
    unfolding s' using k1(2) n by (auto simp: filesKept_def)
  ultimately show ?thesis using m sv by blast
qed

text \<open>
  Claim C9, amended. Take a path without \<open>..\<close> whose last element is a name, on a file
  system whose environment refuses no call, where the directory the path starts from exists,
  no element on the way is a regular file and nothing exists at the path itself. Then
  \<open>saveToFile\<close> succeeds: afterwards every directory on the way exists, what existed before
  is unchanged, and the file holds the array with the one record, which reads back as that
  record. Creating the directories a second time succeeds and changes nothing.
\<close>
theorem missing_directories_are_made:
  assumes "''..'' \<notin> set (Split filePath)"
    and "named (last (Split filePath))"
    and "nodeAt s (if rooted filePath then [] else cwd s) = Some Directory"
    and "clearWay s (if rooted filePath then [] else cwd s) (filter named (Split filePath))"
    and "nodeAt s ((if rooted filePath then [] else cwd s) @ filter named (Split filePath)) = None"
    and "refuses s = (\<lambda>c l. None)"
  shows "fst (saveToFile j filePath s) = None
       \<and> dirsExist (snd (saveToFile j filePath s)) (if rooted filePath then [] else cwd s)
            (butlast (filter named (Split filePath)))
       \<and> ReadFile filePath (snd (saveToFile j filePath s))
            = Inr (arrayText [indented j ''  '' ''  ''])
       \<and> parseArray (arrayText [indented j ''  '' ''  '']) = Some [spelled j]
       \<and> dirsKept s (snd (saveToFile j filePath s))
       \<and> filesKept s (snd (saveToFile j filePath s))
       \<and> MkdirAll (Dir filePath) (snd (MkdirAll (Dir filePath) s))
            = (None, snd (MkdirAll (Dir filePath) s))"
proof -
  from made_from_base [OF refl assms, of j] obtain s1 s' where
    m: "MkdirAll (Dir filePath) s = (None, s1)" and sv: "saveToFile j filePath s = (None, s')"
    and rest: "dirsExist s' (if rooted filePath then [] else cwd s)
                 (butlast (filter named (Split filePath)))"
      "ReadFile filePath s' = Inr (arrayText [indented j ''  '' ''  ''])"
      "dirsKept s s'" "filesKept s s'"
    by blast
  have "MkdirAll (Dir filePath) s1 = (None, s1)" using m by (rule MkdirAll_again)
  moreover have "parseArray (arrayText [indented j ''  '' ''  '']) = Some [spelled j]"
    using parseArray_arrayText [of "''  ''" "''  ''" "[j]"] by (simp add: isSpace_def)
  ultimately show ?thesis unfolding m sv fst_conv snd_conv using rest by blast
qed

theorem missing_directories_are_made_witness:
  "''..'' \<notin> set (Split ''./logs/custom_default.json'')
   \<and> named (last (Split ''./logs/custom_default.json''))
   \<and> nodeAt quietHome (if rooted ''./logs/custom_default.json'' then [] else cwd quietHome)
       = Some Directory
   \<and> clearWay quietHome (if rooted ''./logs/custom_default.json'' then [] else cwd quietHome)
        (filter named (Split ''./logs/custom_default.json''))
   \<and> nodeAt quietHome ((if rooted ''./logs/custom_default.json'' then [] else cwd quietHome)
                        @ filter named (Split ''./logs/custom_default.json'')) = None
   \<and> refuses quietHome = (\<lambda>c l. None)
   \<and> nodeAt quietHome [''home'', ''logs''] = None
   \<and> fst (saveToFile (recordOf INFO zeroOptions exampleClock ''Test 3'')
             ''./logs/custom_default.json'' quietHome) = None
   \<and> dirsExist (snd (saveToFile (recordOf INFO zeroOptions exampleClock ''Test 3'')
                        ''./logs/custom_default.json'' quietHome)) [''home''] [''logs'']
   \<and> ReadFile ''./logs/custom_default.json''
        (snd (saveToFile (recordOf INFO zeroOptions exampleClock ''Test 3'')
                ''./logs/custom_default.json'' quietHome))
       = Inr (arrayText [indented (recordOf INFO zeroOptions exampleClock ''Test 3'') ''  '' ''  ''])"
proof -
  have a: "''..'' \<notin> set (Split ''./logs/custom_default.json'')" by code_simp
  have b: "named (last (Split ''./logs/custom_default.json''))" by code_simp
  have c: "nodeAt quietHome (if rooted ''./logs/custom_default.json'' then [] else cwd quietHome)
       = Some Directory" by code_simp
  have d: "clearWay quietHome (if rooted ''./logs/custom_default.json'' then [] else cwd quietHome)
        (filter named (Split ''./logs/custom_default.json''))" by code_simp
  have e: "nodeAt quietHome ((if rooted ''./logs/custom_default.json'' then [] else cwd quietHome)
                        @ filter named (Split ''./logs/custom_default.json'')) = None" by code_simp
  have f: "refuses quietHome = (\<lambda>c l. None)" by (simp add: quietHome_def)
  have g: "nodeAt quietHome [''home'', ''logs''] = None" by code_simp
  have h: "(if rooted ''./logs/custom_default.json'' then [] else cwd quietHome) = [''home'']"
    by code_simp
  have i: "butlast (filter named (Split ''./logs/custom_default.json'')) = [''logs'']"
    by code_simp
  from missing_directories_are_made [OF a b c d e f, of "recordOf INFO zeroOptions exampleClock ''Test 3''"]
  show ?thesis unfolding h i using a b c d e f g unfolding h by blast
qed

end
